theory Spec2Isabelle
  imports Main "HOL-Library.Word"
begin

unbundle bit_operations_syntax

section \<open>Go values\<close>

type_synonym byte = "8 word"
type_synonym u64 = "64 word"

text \<open>
  A Go byte slice. \<open>None\<close> is the nil slice, \<open>Some []\<close> the empty slice that is not nil:
  \<open>Put\<close> tells them apart, \<open>len\<close>, \<open>range\<close> and \<open>bytes.Compare\<close> do not.
\<close>

type_synonym slice = "byte list option"

definition len :: "slice \<Rightarrow> nat" where
  "len s = (case s of None \<Rightarrow> 0 | Some xs \<Rightarrow> length xs)"

definition elems :: "slice \<Rightarrow> byte list" where
  "elems s = (case s of None \<Rightarrow> [] | Some xs \<Rightarrow> xs)"

text \<open>
  The errors a call can return. \<open>Panic\<close> stands for a run-time panic (nil dereference,
  index out of range, division by zero, a length that \<open>make\<close> refuses).
\<close>

datatype error = EOF | ErrNegativeOffset | ErrClosed | ErrNilArgument | ErrInvalid | Panic

section \<open>hash.go\<close>

definition start :: u64 where
  "start = 5381"

record cdbHash =
  uint64 :: u64

definition newCDBHash :: cdbHash where
  "newCDBHash = \<lparr>uint64 = start\<rparr>"

text \<open>The loop of \<open>Write\<close>: \<open>v = ((v << 5) + v) ^ uint64(b)\<close> for each byte.\<close>

fun Write_loop :: "u64 \<Rightarrow> byte list \<Rightarrow> u64" where
  "Write_loop v [] = v"
| "Write_loop v (b # data) = Write_loop ((push_bit 5 v + v) XOR ucast b) data"

definition Write :: "cdbHash \<Rightarrow> slice \<Rightarrow> cdbHash" where
  "Write h data = h\<lparr>uint64 := Write_loop (uint64 h) (elems data)\<rparr>"

definition Sum64 :: "cdbHash \<Rightarrow> u64" where
  "Sum64 h = uint64 h"

definition Reset :: "cdbHash \<Rightarrow> cdbHash" where
  "Reset h = h\<lparr>uint64 := start\<rparr>"

text \<open>
  Modelled from the spec: the declaration of \<open>HashFunc\<close> is not among the sources; the
  spec calls it a hash constructor that reader and writer accept in place of the default.
  A hasher is used in one way only, by \<open>Put\<close> and by \<open>Get\<close>: \<open>Reset\<close>, \<open>Write(key)\<close>,
  \<open>Sum64\<close>. It is modelled by the digest this sequence computes from the key.
\<close>

type_synonym hasher = "slice \<Rightarrow> u64"

definition cdb_hasher :: hasher where
  "cdb_hasher key = Sum64 (Write (Reset newCDBHash) key)"

text \<open>The hash of the specification, on natural numbers with the reduction written out.\<close>

definition spec_step :: "nat \<Rightarrow> nat \<Rightarrow> nat" where
  "spec_step state b = ((push_bit 5 state mod 2 ^ 64 + state) mod 2 ^ 64) XOR b"

definition spec_hash :: "nat list \<Rightarrow> nat" where
  "spec_hash bs = foldl spec_step 5381 bs"

section \<open>The tuple codec\<close>

text \<open>\<open>binary.LittleEndian\<close>: the least significant byte comes first.\<close>

fun le_decode :: "byte list \<Rightarrow> u64" where
  "le_decode [] = 0"
| "le_decode (b # bs) = ucast b OR push_bit 8 (le_decode bs)"

fun le_encode :: "nat \<Rightarrow> u64 \<Rightarrow> byte list" where
  "le_encode 0 v = []"
| "le_encode (Suc n) v = ucast v # le_encode n (drop_bit 8 v)"

definition Uint64 :: "byte list \<Rightarrow> u64" where
  "Uint64 b = le_decode (take 8 b)"

definition PutUint64 :: "u64 \<Rightarrow> byte list" where
  "PutUint64 v = le_encode 8 v"

text \<open>
  \<open>ReadAt\<close> of a file with the given content, for a buffer of \<open>n\<close> bytes: all \<open>n\<close>
  bytes or an error. As \<open>os.File\<close> does, it refuses a negative offset and reads nothing
  for an empty buffer.
\<close>

definition ReadAt :: "byte list \<Rightarrow> nat \<Rightarrow> int \<Rightarrow> error + byte list" where
  "ReadAt f n off =
     (if off < 0 then Inl ErrNegativeOffset
      else if n = 0 then Inr []
      else if nat off + n \<le> length f then Inr (take n (drop (nat off) f))
      else Inl EOF)"

definition readTuple :: "byte list \<Rightarrow> u64 \<Rightarrow> error + (u64 \<times> u64)" where
  "readTuple r off =
     (case ReadAt r 16 (sint off) of
        Inl err \<Rightarrow> Inl err
      | Inr tuple \<Rightarrow> Inr (Uint64 (take 8 tuple), Uint64 (drop 8 tuple)))"

text \<open>The sixteen bytes \<open>writeTuple\<close> hands to its writer.\<close>

definition tuple_bytes :: "u64 \<Rightarrow> u64 \<Rightarrow> byte list" where
  "tuple_bytes first second = PutUint64 first @ PutUint64 second"

section \<open>The reader\<close>

definition headerSize :: nat where
  "headerSize = 256 * 8 * 2"

record table =
  offset_t :: u64
  length_t :: u64

record CDB =
  reader :: "byte list"
  hasher :: hasher
  header :: "table list"

definition readHeader :: "byte list \<Rightarrow> error + table list" where
  "readHeader r =
     (case ReadAt r headerSize 0 of
        Inl err \<Rightarrow> Inl err
      | Inr buf \<Rightarrow>
          Inr (map (\<lambda>i. \<lparr>offset_t = Uint64 (take 8 (drop (i * 16) buf)),
                          length_t = Uint64 (take 8 (drop (i * 16 + 8) buf))\<rparr>) [0..<256]))"

definition New :: "byte list \<Rightarrow> hasher option \<Rightarrow> error + CDB" where
  "New r h =
     (let h' = (case h of None \<Rightarrow> cdb_hasher | Some f \<Rightarrow> f)
      in case readHeader r of
           Inl err \<Rightarrow> Inl err
         | Inr idx \<Rightarrow> Inr \<lparr>reader = r, hasher = h', header = idx\<rparr>)"

text \<open>
  The largest length \<open>make\<close> accepts for a byte slice at run time: the \<open>maxAlloc\<close> of the
  Go runtime on a 64-bit platform (48 address bits). Beyond it, and for a length that is
  negative as an \<open>int\<close>, \<open>makeslice\<close> panics. Memory that runs out below this limit is
  not modelled.
\<close>

definition maxAlloc :: nat where
  "maxAlloc = 2 ^ 48"

definition getValueAt :: "CDB \<Rightarrow> u64 \<Rightarrow> slice \<Rightarrow> error + slice" where
  "getValueAt cdb off expectedKey =
     (case readTuple (reader cdb) off of
        Inl err \<Rightarrow> Inl err
      | Inr (keyLength, valueLength) \<Rightarrow>
          if sint keyLength \<noteq> int (len expectedKey) then Inr None
          else if maxAlloc < unat (keyLength + valueLength) then Inl Panic
          else
            (case ReadAt (reader cdb) (unat (keyLength + valueLength)) (sint (off + 16)) of
               Inl err \<Rightarrow> Inl err
             | Inr buf \<Rightarrow>
                 if length buf < unat keyLength then Inl Panic
                 else if take (unat keyLength) buf \<noteq> elems expectedKey then Inr None
                 else Inr (Some (drop (unat keyLength) buf))))"

text \<open>
  The probe loop of \<open>Get\<close>, entered with the current slot. The starting slot is
  \<open>(hash >> 8) % table.length\<close>; the remainder by a zero length would panic.
\<close>

function probe :: "CDB \<Rightarrow> slice \<Rightarrow> u64 \<Rightarrow> table \<Rightarrow> u64 \<Rightarrow> error + slice" where
  "probe cdb key h tbl slot =
     (case readTuple (reader cdb) (offset_t tbl + 16 * slot) of
        Inl err \<Rightarrow> Inl err
      | Inr (slotHash, off) \<Rightarrow>
          if slotHash = 0 then Inr None
          else
            (case (if slotHash = h then getValueAt cdb off key else Inr None) of
               Inl err \<Rightarrow> Inl err
             | Inr (Some v) \<Rightarrow> Inr (Some v)
             | Inr None \<Rightarrow>
                 if length_t tbl = 0 then Inl Panic
                 else if (slot + 1) mod length_t tbl = drop_bit 8 h mod length_t tbl then Inr None
                 else probe cdb key h tbl ((slot + 1) mod length_t tbl)))"
  by pat_completeness auto

definition Get :: "CDB \<Rightarrow> slice \<Rightarrow> error + slice" where
  "Get cdb key =
     (let h = hasher cdb key;
          tbl = header cdb ! unat (h AND 255)
      in if length_t tbl = 0 then Inr None
         else probe cdb key h tbl (drop_bit 8 h mod length_t tbl))"

section \<open>The writer\<close>

record entry =
  hash :: u64
  offset :: u64

text \<open>
  The \<open>io.WriteSeeker\<close> under a writer, as a file: its content, its position, whether its
  type is also an \<open>io.ReaderAt\<close> and an \<open>io.Closer\<close>, and whether it has been closed.
  A write past the end fills the gap with zero bytes; a closed file refuses every call.
\<close>

record sink =
  content :: "byte list"
  pos :: nat
  readerAt :: bool
  closer :: bool
  closed :: bool

definition Seek0 :: "sink \<Rightarrow> error + sink" where
  "Seek0 s = (if closed s then Inl ErrClosed else Inr (s\<lparr>pos := 0\<rparr>))"

definition Write_sink :: "sink \<Rightarrow> byte list \<Rightarrow> error + sink" where
  "Write_sink s bs =
     (if closed s then Inl ErrClosed
      else Inr (s\<lparr>content := take (pos s) (content s) @ replicate (pos s - length (content s)) 0
                               @ bs @ drop (pos s + length bs) (content s),
                  pos := pos s + length bs\<rparr>))"

definition Close_sink :: "sink \<Rightarrow> error option \<times> sink" where
  "Close_sink s = (if closed s then (Some ErrClosed, s) else (None, s\<lparr>closed := True\<rparr>))"

text \<open>
  \<open>bufferedWriter\<close> holds the bytes written and not yet flushed, \<open>None\<close> once \<open>finalize\<close>
  has set it to nil. \<open>finalizeOnce\<close> is true when the \<open>sync.Once\<close> has run.
  \<open>bufferedOffset\<close> and \<open>estimatedFooterSize\<close> are \<open>int64\<close> in two's complement.
\<close>

record Writer =
  hasher_w :: hasher
  writer :: sink
  entries :: "entry list list"
  finalizeOnce :: bool
  bufferedWriter :: "byte list option"
  bufferedOffset :: u64
  estimatedFooterSize :: u64

definition NewWriter :: "sink \<Rightarrow> hasher option \<Rightarrow> error + Writer" where
  "NewWriter w h =
     (case Seek0 w of
        Inl err \<Rightarrow> Inl err
      | Inr w1 \<Rightarrow>
          (case Write_sink w1 (replicate headerSize 0) of
             Inl err \<Rightarrow> Inl err
           | Inr w2 \<Rightarrow>
               Inr \<lparr>hasher_w = (case h of None \<Rightarrow> cdb_hasher | Some f \<Rightarrow> f),
                    writer = w2,
                    entries = replicate 256 [],
                    finalizeOnce = False,
                    bufferedWriter = Some [],
                    bufferedOffset = of_nat headerSize,
                    estimatedFooterSize = 0\<rparr>))"

text \<open>\<open>Create\<close>: \<open>os.Create\<close> gives a new, empty file, open for reading and writing.\<close>

definition Create :: "error + Writer" where
  "Create = NewWriter \<lparr>content = [], pos = 0, readerAt = True, closer = True, closed = False\<rparr> None"

definition Put :: "Writer \<Rightarrow> slice \<Rightarrow> slice \<Rightarrow> error + Writer" where
  "Put cdb key val =
     (if key = None \<or> val = None then Inl ErrNilArgument
      else
        let entrySize = (of_nat (16 + len key + len val) :: u64);
            h = hasher_w cdb key;
            tbl = unat (h AND 255);
            e = \<lparr>hash = h, offset = bufferedOffset cdb\<rparr>;
            cdb1 = cdb\<lparr>entries := (entries cdb)[tbl := entries cdb ! tbl @ [e]]\<rparr>
        in case bufferedWriter cdb1 of
             None \<Rightarrow> Inl Panic
           | Some buf \<Rightarrow>
               Inr (cdb1\<lparr>bufferedWriter :=
                            Some (buf @ tuple_bytes (of_nat (len key)) (of_nat (len val))
                                      @ elems key @ elems val),
                          bufferedOffset := bufferedOffset cdb1 + entrySize,
                          estimatedFooterSize := estimatedFooterSize cdb1 + 32\<rparr>))"

text \<open>
  The inner loop of \<open>finalize\<close>: from \<open>slot\<close> on, the first slot whose hash is 0 in the
  table (\<open>sorted\<close> in the source, \<open>slots\<close> here). Nothing bounds the loop: \<open>None\<close> says
  that it does not return.
\<close>

partial_function (option) find_slot :: "entry list \<Rightarrow> u64 \<Rightarrow> u64 \<Rightarrow> (error + u64) option" where
  "find_slot slots tableSize slot =
     (if length slots \<le> unat slot then Some (Inl Panic)
      else if hash (slots ! unat slot) = 0 then Some (Inr slot)
      else if tableSize = 0 then Some (Inl Panic)
      else find_slot slots tableSize ((slot + 1) mod tableSize))"

text \<open>\<open>for _, entry := range tableEntries\<close>: each entry goes to the slot found for it.\<close>

fun fill :: "entry list \<Rightarrow> u64 \<Rightarrow> entry list \<Rightarrow> (error + entry list) option" where
  "fill [] tableSize slots = Some (Inr slots)"
| "fill (e # es) tableSize slots =
     (if tableSize = 0 then Some (Inl Panic)
      else
        (case find_slot slots tableSize (drop_bit 8 (hash e) mod tableSize) of
           None \<Rightarrow> None
         | Some (Inl err) \<Rightarrow> Some (Inl err)
         | Some (Inr slot) \<Rightarrow> fill es tableSize (slots[unat slot := e])))"

text \<open>\<open>for _, entry := range sorted\<close>: one tuple for each slot, sixteen bytes further.\<close>

fun write_slots :: "entry list \<Rightarrow> Writer \<Rightarrow> error + Writer" where
  "write_slots [] cdb = Inr cdb"
| "write_slots (e # es) cdb =
     (case bufferedWriter cdb of
        None \<Rightarrow> Inl Panic
      | Some buf \<Rightarrow>
          write_slots es (cdb\<lparr>bufferedWriter := Some (buf @ tuple_bytes (hash e) (offset e)),
                               bufferedOffset := bufferedOffset cdb + 16\<rparr>))"

text \<open>The body of the loop over the 256 tables, for table \<open>i\<close>.\<close>

definition finalize_table ::
    "nat \<Rightarrow> table list \<times> Writer \<Rightarrow> (error + table list \<times> Writer) option" where
  "finalize_table i st =
     (case st of (index, cdb) \<Rightarrow>
        let tableEntries = entries cdb ! i;
            tableSize = (push_bit 1 (of_nat (length tableEntries)) :: u64);
            index1 = index[i := \<lparr>offset_t = bufferedOffset cdb, length_t = tableSize\<rparr>]
        in case fill tableEntries tableSize (replicate (unat tableSize) \<lparr>hash = 0, offset = 0\<rparr>) of
             None \<Rightarrow> None
           | Some (Inl err) \<Rightarrow> Some (Inl err)
           | Some (Inr slots) \<Rightarrow>
               (case write_slots slots cdb of
                  Inl err \<Rightarrow> Some (Inl err)
                | Inr cdb1 \<Rightarrow> Some (Inr (index1, cdb1))))"

fun finalize_tables ::
    "nat list \<Rightarrow> table list \<times> Writer \<Rightarrow> (error + table list \<times> Writer) option" where
  "finalize_tables [] st = Some (Inr st)"
| "finalize_tables (i # ns) st =
     (case finalize_table i st of
        None \<Rightarrow> None
      | Some (Inl err) \<Rightarrow> Some (Inl err)
      | Some (Inr st1) \<Rightarrow> finalize_tables ns st1)"

text \<open>The 4096 bytes of the index, as the last loop of \<open>finalize\<close> lays them out.\<close>

definition header_bytes :: "table list \<Rightarrow> byte list" where
  "header_bytes index = concat (map (\<lambda>t. PutUint64 (offset_t t) @ PutUint64 (length_t t)) index)"

text \<open>\<open>Flush\<close> of the buffered writer: an empty buffer reaches the file with no call.\<close>

definition Flush :: "sink \<Rightarrow> byte list \<Rightarrow> error + sink" where
  "Flush w buf = (if buf = [] then Inr w else Write_sink w buf)"

text \<open>
  \<open>finalize\<close> returns the index or an error, and leaves the writer changed. \<open>None\<close>: it does
  not return.
\<close>

definition finalize :: "Writer \<Rightarrow> ((error + table list) \<times> Writer) option" where
  "finalize cdb =
     (case finalize_tables [0..<256] (replicate 256 \<lparr>offset_t = 0, length_t = 0\<rparr>, cdb) of
        None \<Rightarrow> None
      | Some (Inl err) \<Rightarrow> Some (Inl err, cdb)
      | Some (Inr (index, cdb1)) \<Rightarrow>
          (case bufferedWriter cdb1 of
             None \<Rightarrow> Some (Inl Panic, cdb1)
           | Some buf \<Rightarrow>
               (case Flush (writer cdb1) buf of
                  Inl err \<Rightarrow> Some (Inl err, cdb1\<lparr>bufferedWriter := None\<rparr>)
                | Inr w1 \<Rightarrow>
                    (case Seek0 w1 of
                       Inl err \<Rightarrow> Some (Inl err, cdb1\<lparr>bufferedWriter := None, writer := w1\<rparr>)
                     | Inr w2 \<Rightarrow>
                         (case Write_sink w2 (header_bytes index) of
                            Inl err \<Rightarrow>
                              Some (Inl err, cdb1\<lparr>bufferedWriter := None, writer := w2\<rparr>)
                          | Inr w3 \<Rightarrow>
                              Some (Inr index, cdb1\<lparr>bufferedWriter := None, writer := w3\<rparr>))))))"

text \<open>
  \<open>finalizeOnce.Do\<close> around \<open>finalize\<close>: when the once has run already, the index keeps
  the zero value of its declaration and the error stays nil.
\<close>

definition finalize_once :: "Writer \<Rightarrow> ((error + table list) \<times> Writer) option" where
  "finalize_once cdb =
     (if finalizeOnce cdb then Some (Inr (replicate 256 \<lparr>offset_t = 0, length_t = 0\<rparr>), cdb)
      else
        (case finalize cdb of
           None \<Rightarrow> None
         | Some (r, cdb1) \<Rightarrow> Some (r, cdb1\<lparr>finalizeOnce := True\<rparr>)))"

definition Close :: "Writer \<Rightarrow> (error option \<times> Writer) option" where
  "Close cdb =
     (case finalize_once cdb of
        None \<Rightarrow> None
      | Some (Inl err, cdb1) \<Rightarrow> Some (Some err, cdb1)
      | Some (Inr index, cdb1) \<Rightarrow>
          if closer (writer cdb1)
          then (case Close_sink (writer cdb1) of (r, w) \<Rightarrow> Some (r, cdb1\<lparr>writer := w\<rparr>))
          else Some (None, cdb1))"

definition Freeze :: "Writer \<Rightarrow> ((error + CDB) \<times> Writer) option" where
  "Freeze cdb =
     (case finalize_once cdb of
        None \<Rightarrow> None
      | Some (Inl err, cdb1) \<Rightarrow> Some (Inl err, cdb1)
      | Some (Inr index, cdb1) \<Rightarrow>
          if readerAt (writer cdb1)
          then Some (Inr \<lparr>reader = content (writer cdb1), hasher = hasher_w cdb1, header = index\<rparr>,
                     cdb1)
          else Some (Inl ErrInvalid, cdb1))"

text \<open>
  What is left of \<open>Close\<close> and of \<open>Freeze\<close> when the once does not call \<open>finalize\<close>:
  \<open>Close\<close> closes the file when its type has a \<open>Close\<close> method, \<open>Freeze\<close> makes a reader
  from the file and the given index when its type is an \<open>io.ReaderAt\<close>. The reader is
  given the content the file has at that moment. In the source it is the writer's file
  itself, so that a read through it fails once \<open>Close\<close> has closed the file; nothing
  below reads through a reader made by \<open>Freeze\<close> after a \<open>Close\<close>.
\<close>

definition close_file :: "Writer \<Rightarrow> error option \<times> Writer" where
  "close_file cdb =
     (if closer (writer cdb)
      then (case Close_sink (writer cdb) of (r, w) \<Rightarrow> (r, cdb\<lparr>writer := w\<rparr>))
      else (None, cdb))"

definition reader_of :: "Writer \<Rightarrow> table list \<Rightarrow> error + CDB" where
  "reader_of cdb index =
     (if readerAt (writer cdb)
      then Inr \<lparr>reader = content (writer cdb), hasher = hasher_w cdb, header = index\<rparr>
      else Inl ErrInvalid)"

text \<open>A run of successful calls of \<open>Put\<close>, in order; it stops at the first error.\<close>

fun puts :: "Writer \<Rightarrow> (byte list \<times> byte list) list \<Rightarrow> error + Writer" where
  "puts cdb [] = Inr cdb"
| "puts cdb ((k, v) # kvs) =
     (case Put cdb (Some k) (Some v) of
        Inl err \<Rightarrow> Inl err
      | Inr cdb1 \<Rightarrow> puts cdb1 kvs)"


section \<open>Databases written to a new file\<close>

text \<open>
  \<open>Create\<close>, the calls of \<open>Put\<close>, then \<open>Close\<close>: the content of the file, when every step
  returns without an error.
\<close>

definition written :: "(byte list \<times> byte list) list \<Rightarrow> byte list option" where
  "written kvs =
     (case Create of
        Inl err \<Rightarrow> None
      | Inr cdb \<Rightarrow>
          (case puts cdb kvs of
             Inl err \<Rightarrow> None
           | Inr cdb1 \<Rightarrow>
               (case Close cdb1 of
                  None \<Rightarrow> None
                | Some (Some err, cdb2) \<Rightarrow> None
                | Some (None, cdb2) \<Rightarrow> Some (content (writer cdb2)))))"

text \<open>
  \<open>Create\<close>, the calls of \<open>Put\<close>, then \<open>Freeze\<close>: the reader \<open>Freeze\<close> returns, as in the
  example program.
\<close>

definition frozen :: "(byte list \<times> byte list) list \<Rightarrow> CDB option" where
  "frozen kvs =
     (case Create of
        Inl err \<Rightarrow> None
      | Inr cdb \<Rightarrow>
          (case puts cdb kvs of
             Inl err \<Rightarrow> None
           | Inr cdb1 \<Rightarrow>
               (case Freeze cdb1 of
                  None \<Rightarrow> None
                | Some (Inl err, cdb2) \<Rightarrow> None
                | Some (Inr db, cdb2) \<Rightarrow> Some db)))"

text \<open>The bytes of a record, and the size of the file that holds the given pairs.\<close>

definition record_bytes :: "byte list \<times> byte list \<Rightarrow> byte list" where
  "record_bytes kv =
     tuple_bytes (of_nat (length (fst kv))) (of_nat (length (snd kv))) @ fst kv @ snd kv"

definition file_size :: "(byte list \<times> byte list) list \<Rightarrow> nat" where
  "file_size kvs = headerSize + length (concat (map record_bytes kvs)) + 32 * length kvs"

text \<open>The entries the puts record, in the order of the puts, from the offset of the first.\<close>

fun all_entries :: "hasher \<Rightarrow> u64 \<Rightarrow> (byte list \<times> byte list) list \<Rightarrow> entry list" where
  "all_entries H off [] = []"
| "all_entries H off (kv # kvs) =
     \<lparr>hash = H (Some (fst kv)), offset = off\<rparr>
       # all_entries H (off + of_nat (length (record_bytes kv))) kvs"

text \<open>
  The table \<open>finalize\<close> builds from a list of entries: its size, its slots (when the
  filling returns), the bytes of its slots, and the index after the tables \<open>ns\<close>.
\<close>

definition table_size :: "entry list \<Rightarrow> u64" where
  "table_size es = push_bit 1 (of_nat (length es))"

definition table_of :: "entry list \<Rightarrow> entry list" where
  "table_of es =
     (case fill es (table_size es) (replicate (unat (table_size es)) \<lparr>hash = 0, offset = 0\<rparr>) of
        Some (Inr T) \<Rightarrow> T
      | _ \<Rightarrow> [])"

definition slots_bytes :: "entry list \<Rightarrow> byte list" where
  "slots_bytes T = concat (map (\<lambda>e. tuple_bytes (hash e) (offset e)) T)"

fun index_after :: "nat list \<Rightarrow> u64 \<Rightarrow> entry list list \<Rightarrow> table list \<Rightarrow> table list" where
  "index_after [] off E index = index"
| "index_after (i # ns) off E index =
     index_after ns (off + of_nat (32 * length (E ! i))) E
       (index[i := \<lparr>offset_t = off, length_t = table_size (E ! i)\<rparr>])"

text \<open>
  What \<open>written\<close> is shown to produce: the entries of table \<open>i\<close>, the index, and the
  file: the index, the records, the tables.
\<close>

definition table_entries :: "(byte list \<times> byte list) list \<Rightarrow> nat \<Rightarrow> entry list" where
  "table_entries kvs i =
     filter (\<lambda>e. unat (hash e AND 255) = i) (all_entries cdb_hasher (of_nat headerSize) kvs)"

definition index_of :: "(byte list \<times> byte list) list \<Rightarrow> table list" where
  "index_of kvs =
     index_after [0..<256] (of_nat headerSize + of_nat (length (concat (map record_bytes kvs))))
       (map (table_entries kvs) [0..<256]) (replicate 256 \<lparr>offset_t = 0, length_t = 0\<rparr>)"

definition layout :: "(byte list \<times> byte list) list \<Rightarrow> byte list" where
  "layout kvs =
     header_bytes (index_of kvs) @ concat (map record_bytes kvs)
       @ concat (map (\<lambda>i. slots_bytes (table_of (table_entries kvs i))) [0..<256])"

text \<open>The position of table \<open>i\<close> in the file.\<close>

definition table_pos :: "(byte list \<times> byte list) list \<Rightarrow> nat \<Rightarrow> nat" where
  "table_pos kvs i =
     headerSize + length (concat (map record_bytes kvs))
       + sum_list (map (\<lambda>j. 32 * length (table_entries kvs j)) [0..<i])"

text \<open>
  The database written to a new file and opened again (\<open>Open\<close> is \<open>New\<close> with the default
  hash), and \<open>Get\<close> on it.
\<close>

definition reopened :: "(byte list \<times> byte list) list \<Rightarrow> CDB option" where
  "reopened kvs =
     (case written kvs of
        None \<Rightarrow> None
      | Some f \<Rightarrow> (case New f None of Inl err \<Rightarrow> None | Inr cdb \<Rightarrow> Some cdb))"

definition lookup :: "(byte list \<times> byte list) list \<Rightarrow> slice \<Rightarrow> (error + slice) option" where
  "lookup kvs key = (case reopened kvs of None \<Rightarrow> None | Some cdb \<Rightarrow> Some (Get cdb key))"

text \<open>A key of thirteen bytes whose default hash is 0.\<close>

definition zero_key :: "byte list" where
  "zero_key = [165, 140, 128, 144, 4, 70, 30, 24, 101, 58, 131, 214, 18]"

section \<open>Calls of Get that run at the same time\<close>

text \<open>
  A reader holds one hasher (the field \<open>hasher\<close> of \<open>CDB\<close>), and every \<open>Get\<close> calls
  \<open>Reset\<close>, \<open>Write(key)\<close> and \<open>Sum64\<close> on it before it touches the file. When several
  goroutines call \<open>Get\<close> on the same reader, these calls interleave on the one hasher.
  A schedule lists the calls in the order in which they reach the hasher, each with the
  number of its goroutine; \<open>run_calls\<close> runs them on the shared \<open>cdbHash\<close> and keeps, for
  each goroutine, the digest its \<open>Sum64\<close> returned. A call is taken as one step (\<open>Write\<close>
  reads the state once before its loop and stores it once after).
\<close>

datatype hcall = CallReset | CallWrite slice | CallSum64

fun run_calls ::
    "(nat \<times> hcall) list \<Rightarrow> cdbHash \<Rightarrow> (nat \<Rightarrow> u64 option) \<Rightarrow> (nat \<Rightarrow> u64 option)" where
  "run_calls [] h digests = digests"
| "run_calls ((t, CallReset) # calls) h digests = run_calls calls (Reset h) digests"
| "run_calls ((t, CallWrite data) # calls) h digests = run_calls calls (Write h data) digests"
| "run_calls ((t, CallSum64) # calls) h digests =
     run_calls calls h (digests(t := Some (Sum64 h)))"

text \<open>The three calls \<open>Get\<close> makes on the hasher, for goroutine \<open>t\<close>.\<close>

definition Get_calls :: "nat \<Rightarrow> slice \<Rightarrow> (nat \<times> hcall) list" where
  "Get_calls t key = [(t, CallReset), (t, CallWrite key), (t, CallSum64)]"

text \<open>\<open>Get\<close> from the line after \<open>hash := cdb.hasher.Sum64()\<close> on.\<close>

definition Get_from :: "CDB \<Rightarrow> slice \<Rightarrow> u64 \<Rightarrow> error + slice" where
  "Get_from cdb key h =
     (let tbl = header cdb ! unat (h AND 255)
      in if length_t tbl = 0 then Inr None
         else probe cdb key h tbl (drop_bit 8 h mod length_t tbl))"

text \<open>
  What \<open>Get(key)\<close> returns in goroutine \<open>t\<close> when the calls on the hasher of the reader
  (a new \<open>cdbHash\<close>, as \<open>New\<close> makes it) arrive in the order of the schedule; \<open>None\<close> when
  the schedule holds no \<open>Sum64\<close> of that goroutine.
\<close>

definition Get_scheduled ::
    "CDB \<Rightarrow> (nat \<times> hcall) list \<Rightarrow> nat \<Rightarrow> slice \<Rightarrow> (error + slice) option" where
  "Get_scheduled cdb calls t key =
     (case run_calls calls newCDBHash (\<lambda>t. None) t of
        None \<Rightarrow> None
      | Some h \<Rightarrow> Some (Get_from cdb key h))"

text \<open>
  The number of slots the probe loop of \<open>Get\<close> may still visit before it is back at the
  starting slot: what decreases at each turn of the loop.
\<close>

definition probe_measure :: "u64 \<Rightarrow> u64 \<Rightarrow> u64 \<Rightarrow> nat" where
  "probe_measure h n slot =
     (if unat slot < unat n
      then (unat (drop_bit 8 h mod n) + unat n - Suc (unat slot)) mod unat n
      else unat n)"

text \<open>The slots of a table that hold an entry with a hash other than 0.\<close>

definition taken :: "entry list \<Rightarrow> nat set" where
  "taken T = {j. j < length T \<and> hash (T ! j) \<noteq> 0}"

section \<open>Termination of the probe loop\<close>

lemma mod_plus_self: "a = n + k \<Longrightarrow> k < n \<Longrightarrow> a mod n = (k::nat)"
  by simp

lemma probe_step_nat:
  assumes "0 < n" "st < n" "s < n" "(s + 1) mod n \<noteq> st"
  shows "(st + n - Suc ((s + 1) mod n)) mod n < (st + n - Suc s) mod (n::nat)"
proof (cases "s + 1 = n")
  case True
  then have "st \<noteq> 0" using assms by auto
  have a: "(s + 1) mod n = 0" using True by simp
  have "(st + n - Suc 0) mod n = st - 1"
    by (rule mod_plus_self) (use assms \<open>st \<noteq> 0\<close> in auto)
  moreover have "(st + n - Suc s) mod n = st" using True assms by simp
  ultimately show ?thesis using \<open>st \<noteq> 0\<close> unfolding a by simp
next
  case False
  then have s1: "s + 1 < n" "(s + 1) mod n = s + 1" using assms by auto
  show ?thesis
  proof (cases "s + 1 < st")
    case True
    have "(st + n - Suc (s + 1)) mod n = st - s - 2"
      by (rule mod_plus_self) (use assms True in auto)
    moreover have "(st + n - Suc s) mod n = st - s - 1"
      by (rule mod_plus_self) (use assms True in auto)
    ultimately show ?thesis using True unfolding s1 by simp
  next
    case False
    then have "st \<le> s" using assms s1 by auto
    then have "st + n - Suc (s + 1) < n" "st + n - Suc s < n" using assms s1 by auto
    then show ?thesis using \<open>st \<le> s\<close> assms s1(1) by (simp add: s1(2))
  qed
qed

text \<open>The successor slot, read as a natural number.\<close>

lemma unat_next_slot:
  assumes "unat slot < unat (n :: u64)"
  shows "unat ((slot + 1) mod n) = (unat slot + 1) mod unat n"
proof -
  have "unat slot + 1 < 2 ^ 64" using assms unsigned_less [of n, where 'a = nat] by simp
  then have "unat (slot + 1) = unat slot + 1"
    by (simp add: unat_word_ariths)
  then show ?thesis by (simp add: unat_mod)
qed

lemma unat_mod_less: "n \<noteq> 0 \<Longrightarrow> unat (x mod n) < unat (n :: u64)"
  by (simp add: unat_mod unat_gt_0)

lemma probe_measure_decreases:
  assumes "n \<noteq> 0" "(slot + 1) mod n \<noteq> drop_bit 8 h mod n"
  shows "probe_measure h n ((slot + 1) mod n) < probe_measure h n slot"
proof (cases "unat slot < unat n")
  case True
  let ?st = "unat (drop_bit 8 h mod n)"
  have n: "0 < unat n" using assms by (simp add: unat_gt_0)
  have st: "?st < unat n" using assms by (rule_tac unat_mod_less)
  have nx: "unat ((slot + 1) mod n) = (unat slot + 1) mod unat n"
    using True by (rule unat_next_slot)
  have ne: "(unat slot + 1) mod unat n \<noteq> ?st"
    using assms(2) nx by (simp add: word_unat_eq_iff)
  have lt: "(unat slot + 1) mod unat n < unat n" using n by simp
  show ?thesis
    using probe_step_nat [OF n st True ne] True lt
    by (simp add: probe_measure_def nx)
next
  case False
  have "unat ((slot + 1) mod n) < unat n" using assms by (rule_tac unat_mod_less)
  then have "probe_measure h n ((slot + 1) mod n) < unat n"
    using assms by (simp add: probe_measure_def unat_gt_0)
  then show ?thesis using False by (simp add: probe_measure_def)
qed

termination probe
  by (relation "measure (\<lambda>(cdb, key, h, tbl, slot). probe_measure h (length_t tbl) slot)")
     (auto intro: probe_measure_decreases)

declare probe.simps [simp del]

section \<open>The hash function\<close>

lemma unat_ucast_byte: "unat (ucast (b :: byte) :: u64) = unat b"
proof -
  have "unat b < 2 ^ 8" using unsigned_less [of b, where 'a = nat] by simp
  then show ?thesis by (simp add: unsigned_ucast_eq take_bit_eq_mod)
qed

lemma spec_step_unat:
  "unat ((push_bit 5 v + v) XOR ucast (b :: byte) :: u64) = spec_step (unat v) (unat b)"
  by (simp add: spec_step_def unsigned_xor_eq unat_word_ariths unsigned_push_bit_eq
      take_bit_eq_mod unat_ucast_byte)

lemma Write_loop_foldl:
  "unat (Write_loop v data) = foldl spec_step (unat v) (map unat data)"
  by (induction data arbitrary: v) (simp_all add: spec_step_unat)

text \<open>
  C6. The default hash of a key is the left fold of the specification over the bytes of
  the key: from 5381, each byte \<open>b\<close> takes the state to
  \<open>((state << 5) + state) XOR b\<close> modulo \<open>2^64\<close>.
\<close>

theorem cdb_hasher_is_spec_hash:
  "unat (cdb_hasher key) = spec_hash (map unat (elems key))"
  by (simp add: cdb_hasher_def Sum64_def Write_def Reset_def spec_hash_def start_def
      Write_loop_foldl)

section \<open>A nil key\<close>

lemma len_nil: "len None = len (Some [])"
  by (simp add: len_def)

lemma elems_nil: "elems None = elems (Some [])"
  by (simp add: elems_def)

lemma getValueAt_nil: "getValueAt cdb off None = getValueAt cdb off (Some [])"
  unfolding getValueAt_def len_nil elems_nil by (rule refl)

lemma probe_nil: "probe cdb None h tbl slot = probe cdb (Some []) h tbl slot"
proof (induction cdb "None :: slice" h tbl slot rule: probe.induct)
  case (1 cdb h tbl slot)
  show ?case
    apply (subst probe.simps)
    apply (subst (2) probe.simps)
    apply (simp add: getValueAt_nil split: sum.splits prod.splits option.splits)
    using 1 apply (auto simp add: getValueAt_nil)
    done
qed

lemma cdb_hasher_nil: "cdb_hasher None = cdb_hasher (Some [])"
  unfolding cdb_hasher_def Write_def elems_nil by (rule refl)

text \<open>
  C10. On a reader with the default hash, \<open>Get\<close> of the nil key and \<open>Get\<close> of the
  empty key return the same result, whatever the file holds: \<open>Get\<close> has no nil check,
  and the hash, the length test and the comparison see no bytes in either.
\<close>

theorem Get_nil_key_is_empty_key:
  "Get (cdb\<lparr>hasher := cdb_hasher\<rparr>) None = Get (cdb\<lparr>hasher := cdb_hasher\<rparr>) (Some [])"
  by (simp add: Get_def Let_def cdb_hasher_nil probe_nil)

section \<open>The codec\<close>

lemma length_le_encode [simp]: "length (le_encode n v) = n"
  by (induction n arbitrary: v) auto

lemma le_decode_encode: "le_decode (le_encode n v) = take_bit (8 * n) v"
proof (induction n arbitrary: v)
  case 0
  show ?case by simp
next
  case (Suc n)
  show ?case
    apply (simp add: Suc)
    apply (rule bit_eqI)
    apply (auto simp add: bit_simps)
    done
qed

lemma length_PutUint64 [simp]: "length (PutUint64 v) = 8"
  by (simp add: PutUint64_def)

lemma Uint64_PutUint64 [simp]: "Uint64 (PutUint64 v @ rest) = v"
  using take_bit_length_eq [of v] by (simp add: Uint64_def PutUint64_def le_decode_encode)

lemma Uint64_PutUint64_only [simp]: "Uint64 (PutUint64 v) = v"
  using Uint64_PutUint64 [of v "[]"] by simp

lemma length_tuple_bytes [simp]: "length (tuple_bytes a b) = 16"
  by (simp add: tuple_bytes_def)

lemma ReadAt_middle:
  assumes "0 \<le> off" "nat off = length A" "length X = n"
  shows "ReadAt (A @ X @ B) n off = Inr X"
  using assms by (auto simp add: ReadAt_def)

lemma sint_small:
  assumes "unat (w :: u64) < 2 ^ 63"
  shows "sint w = int (unat w)"
proof -
  have "uint w < 2 ^ 63"
    using assms by (metis of_nat_less_numeral_power_cancel_iff of_nat_unat)
  moreover have "- (2 ^ 63) \<le> uint w" by (rule order_trans [of _ 0]) simp_all
  ultimately have "signed_take_bit 63 (uint w) = uint w"
    by (rule_tac signed_take_bit_int_eq_self)
  then show ?thesis by (simp add: sint_uint)
qed

lemma readTuple_middle:
  assumes "unat off = length A" "length A < 2 ^ 63"
  shows "readTuple (A @ tuple_bytes a b @ B) off = Inr (a, b)"
proof -
  have s: "sint off = int (length A)" using assms by (simp add: sint_small)
  have "ReadAt (A @ tuple_bytes a b @ B) 16 (sint off) = Inr (tuple_bytes a b)"
    by (rule ReadAt_middle) (simp_all add: s)
  then show ?thesis by (simp add: readTuple_def tuple_bytes_def)
qed

lemma length_record_bytes:
  "length (record_bytes kv) = 16 + length (fst kv) + length (snd kv)"
  by (simp add: record_bytes_def)

section \<open>The writer before finalize\<close>

lemma low_byte_less: "unat (h AND 255 :: u64) < 256"
proof -
  have "unat (h AND 255) \<le> unat (255 :: u64)"
    by (rule word_and_le1 [THEN word_le_nat_alt [THEN iffD1]])
  then show ?thesis by simp
qed

lemma Put_ok:
  assumes "bufferedWriter w = Some buf"
  shows "Put w (Some k) (Some v) =
    Inr (w\<lparr>entries := (entries w)[unat (hasher_w w (Some k) AND 255) :=
                 entries w ! unat (hasher_w w (Some k) AND 255)
                   @ [\<lparr>hash = hasher_w w (Some k), offset = bufferedOffset w\<rparr>]],
           bufferedWriter := Some (buf @ record_bytes (k, v)),
           bufferedOffset := bufferedOffset w + of_nat (length (record_bytes (k, v))),
           estimatedFooterSize := estimatedFooterSize w + 32\<rparr>)"
  using assms by (simp add: Put_def Let_def len_def elems_def record_bytes_def)

lemma puts_state:
  assumes "bufferedWriter w = Some buf" "length (entries w) = 256"
  shows "\<exists>w'. puts w kvs = Inr w'
    \<and> bufferedWriter w' = Some (buf @ concat (map record_bytes kvs))
    \<and> bufferedOffset w' = bufferedOffset w + of_nat (length (concat (map record_bytes kvs)))
    \<and> writer w' = writer w \<and> hasher_w w' = hasher_w w \<and> finalizeOnce w' = finalizeOnce w
    \<and> length (entries w') = 256
    \<and> (\<forall>i<256. entries w' ! i =
          entries w ! i @ filter (\<lambda>e. unat (hash e AND 255) = i)
                            (all_entries (hasher_w w) (bufferedOffset w) kvs))"
  using assms
proof (induction kvs arbitrary: w buf)
  case Nil
  then show ?case by simp
next
  case (Cons kv kvs)
  obtain k v where kv: "kv = (k, v)" by (cases kv)
  let ?t = "unat (hasher_w w (Some k) AND 255)"
  let ?e = "\<lparr>hash = hasher_w w (Some k), offset = bufferedOffset w\<rparr>"
  let ?w1 = "w\<lparr>entries := (entries w)[?t := entries w ! ?t @ [?e]],
           bufferedWriter := Some (buf @ record_bytes (k, v)),
           bufferedOffset := bufferedOffset w + of_nat (length (record_bytes (k, v))),
           estimatedFooterSize := estimatedFooterSize w + 32\<rparr>"
  have put: "Put w (Some k) (Some v) = Inr ?w1"
    using Cons.prems(1) by (rule Put_ok)
  have b1: "bufferedWriter ?w1 = Some (buf @ record_bytes (k, v))" by simp
  have l1: "length (entries ?w1) = 256" using Cons.prems(2) by simp
  from Cons.IH [OF b1 l1] obtain w' where w':
    "puts ?w1 kvs = Inr w'"
    "bufferedWriter w' = Some ((buf @ record_bytes (k, v)) @ concat (map record_bytes kvs))"
    "bufferedOffset w' = bufferedOffset ?w1 + of_nat (length (concat (map record_bytes kvs)))"
    "writer w' = writer ?w1" "hasher_w w' = hasher_w ?w1" "finalizeOnce w' = finalizeOnce ?w1"
    "length (entries w') = 256"
    "\<forall>i<256. entries w' ! i =
          entries ?w1 ! i @ filter (\<lambda>e. unat (hash e AND 255) = i)
                            (all_entries (hasher_w ?w1) (bufferedOffset ?w1) kvs)"
    by blast
  have ents: "entries w' ! i =
          entries w ! i @ filter (\<lambda>e. unat (hash e AND 255) = i)
                            (all_entries (hasher_w w) (bufferedOffset w) (kv # kvs))"
    if "i < 256" for i
  proof -
    have "entries ?w1 ! i = entries w ! i @ (if i = ?t then [?e] else [])"
      using that Cons.prems(2) by (simp add: nth_list_update)
    then show ?thesis using w'(8) that by (simp add: kv)
  qed
  show ?case
    apply (rule exI [of _ w'])
    using w'(1-7) ents put
    apply (simp add: kv)
    done
qed

section \<open>Filling a table\<close>

lemma find_slot_steps:
  assumes "length T = unat n" "n \<noteq> 0" "unat slot < unat n"
    "hash (T ! ((unat slot + t) mod unat n)) = 0"
    "\<forall>t'<t. hash (T ! ((unat slot + t') mod unat n)) \<noteq> 0"
  shows "\<exists>s. find_slot T n slot = Some (Inr s) \<and> unat s = (unat slot + t) mod unat n"
  using assms(3-5)
proof (induction t arbitrary: slot)
  case 0
  then show ?case
    using assms(1) by (subst find_slot.simps) simp
next
  case (Suc t)
  let ?s = "(slot + 1) mod n"
  have nz: "hash (T ! unat slot) \<noteq> 0"
    using Suc.prems(3) [rule_format, of 0] Suc.prems(1) by simp
  have u: "unat ?s = (unat slot + 1) mod unat n"
    using Suc.prems(1) by (rule unat_next_slot)
  have lt: "unat ?s < unat n" using assms(2) by (rule unat_mod_less)
  have shift: "(unat ?s + t') mod unat n = (unat slot + Suc t') mod unat n" for t'
    unfolding u by (simp add: mod_add_left_eq)
  have z: "hash (T ! ((unat ?s + t) mod unat n)) = 0"
    using Suc.prems(2) by (simp only: shift)
  have nzs: "\<forall>t'<t. hash (T ! ((unat ?s + t') mod unat n)) \<noteq> 0"
    using Suc.prems(3) by (simp only: shift) auto
  from Suc.IH [OF lt z nzs] obtain s where
    "find_slot T n ?s = Some (Inr s)" "unat s = (unat ?s + t) mod unat n" by blast
  then show ?case
    using nz Suc.prems(1) assms(1,2)
    by (subst find_slot.simps) (simp add: shift)
qed


lemma find_slot_exists:
  assumes "length T = unat n" "n \<noteq> 0" "unat slot < unat n" "j < unat n" "hash (T ! j) = 0"
  shows "\<exists>s t. find_slot T n slot = Some (Inr s) \<and> unat s = (unat slot + t) mod unat n
    \<and> t < unat n \<and> hash (T ! unat s) = 0
    \<and> (\<forall>t'<t. hash (T ! ((unat slot + t') mod unat n)) \<noteq> 0)"
proof -
  let ?P = "\<lambda>t. hash (T ! ((unat slot + t) mod unat n)) = 0"
  let ?tj = "(j + unat n - unat slot) mod unat n"
  have "(unat slot + ?tj) mod unat n = (unat slot + (j + unat n - unat slot)) mod unat n"
    by (simp add: mod_add_right_eq)
  also have "\<dots> = j" using assms(3,4) by simp
  finally have "?P ?tj" using assms(5) by simp
  then have least: "?P (LEAST t. ?P t)" by (rule LeastI)
  have before: "\<forall>t'<(LEAST t. ?P t). \<not> ?P t'"
    using not_less_Least by blast
  from find_slot_steps [OF assms(1-3) least before] obtain s where
    s: "find_slot T n slot = Some (Inr s)" "unat s = (unat slot + (LEAST t. ?P t)) mod unat n"
    by blast
  have "(LEAST t. ?P t) \<le> ?tj" using \<open>?P ?tj\<close> by (rule Least_le)
  moreover have "?tj < unat n" using assms(4) by simp
  ultimately have "(LEAST t. ?P t) < unat n" by simp
  moreover have "hash (T ! unat s) = 0" using least s(2) by simp
  ultimately show ?thesis using s before by blast
qed

lemma finite_taken [simp]: "finite (taken T)"
  by (simp add: taken_def)

lemma taken_update: "card (taken (T[s := e])) \<le> Suc (card (taken T))"
proof -
  have "taken (T[s := e]) \<subseteq> insert s (taken T)"
    by (auto simp add: taken_def nth_list_update split: if_splits)
  then have "card (taken (T[s := e])) \<le> card (insert s (taken T))"
    by (rule card_mono [rotated]) simp
  also have "\<dots> \<le> Suc (card (taken T))" by (simp add: card_insert_if)
  finally show ?thesis .
qed

lemma free_slot:
  assumes "card (taken T) < length T"
  shows "\<exists>j<length T. hash (T ! j) = 0"
proof (rule ccontr)
  assume "\<not> ?thesis"
  then have "taken T = {..<length T}" by (auto simp add: taken_def)
  then show False using assms by simp
qed

text \<open>One entry: it goes to the first free slot from its home slot on.\<close>

lemma fill_step:
  assumes "length T = unat n" "card (taken T) < unat n"
  shows "\<exists>(s :: u64) t. fill (e # es) n T = fill es n (T[unat s := e])
    \<and> unat s = (unat (drop_bit 8 (hash e) mod n) + t) mod unat n
    \<and> unat s < unat n \<and> t < unat n
    \<and> hash (T ! unat s) = 0
    \<and> (\<forall>t'<t. hash (T ! ((unat (drop_bit 8 (hash e) mod n) + t') mod unat n)) \<noteq> 0)"
proof -
  have n: "n \<noteq> 0" using assms(2) by (auto simp add: unat_gt_0 [symmetric])
  have home: "unat (drop_bit 8 (hash e) mod n) < unat n" using n by (rule unat_mod_less)
  obtain j where j: "j < unat n" "hash (T ! j) = 0"
    using free_slot [of T] assms by auto
  from find_slot_exists [OF assms(1) n home j] obtain s t where
    s: "find_slot T n (drop_bit 8 (hash e) mod n) = Some (Inr s)"
      "unat s = (unat (drop_bit 8 (hash e) mod n) + t) mod unat n"
      "hash (T ! unat s) = 0"
      "\<forall>t'<t. hash (T ! ((unat (drop_bit 8 (hash e) mod n) + t') mod unat n)) \<noteq> 0"
      "t < unat n"
    by blast
  have lt: "unat s < unat n" using n s(2) by (simp add: unat_gt_0)
  have st: "fill (e # es) n T = fill es n (T[unat s := e])"
    using n s(1) by simp
  show ?thesis
  proof (intro exI conjI)
    show "fill (e # es) n T = fill es n (T[unat s := e])" by (rule st)
    show "unat s = (unat (drop_bit 8 (hash e) mod n) + t) mod unat n" by (rule s(2))
    show "unat s < unat n" by (rule lt)
    show "t < unat n" by (rule s(5))
    show "hash (T ! unat s) = 0" by (rule s(3))
    show "\<forall>t'<t. hash (T ! ((unat (drop_bit 8 (hash e) mod n) + t') mod unat n)) \<noteq> 0"
      by (rule s(4))
  qed
qed

lemma fill_inv:
  assumes "length T = unat n" "card (taken T) + length es \<le> unat n"
  shows "\<exists>T'. fill es n T = Some (Inr T') \<and> length T' = unat n
    \<and> (\<forall>j<unat n. hash (T ! j) \<noteq> 0 \<longrightarrow> T' ! j = T ! j)
    \<and> (\<forall>j<unat n. hash (T' ! j) \<noteq> 0 \<longrightarrow> hash (T ! j) \<noteq> 0 \<or> T' ! j \<in> set es)
    \<and> card (taken T') \<le> card (taken T) + length es
    \<and> (\<forall>j<unat n. T' ! j = T ! j \<or> T' ! j \<in> set es)"
  using assms
proof (induction es arbitrary: T)
  case Nil
  then show ?case by simp
next
  case (Cons e es)
  have c: "card (taken T) < unat n" using Cons.prems(2) by simp
  from fill_step [OF Cons.prems(1) c, of e es] obtain s :: u64 where
    s: "fill (e # es) n T = fill es n (T[unat s := e])" "unat s < unat n" "hash (T ! unat s) = 0"
    by blast
  let ?T1 = "T[unat s := e]"
  have l1: "length ?T1 = unat n" using Cons.prems(1) by simp
  have c1: "card (taken ?T1) + length es \<le> unat n"
    using taken_update [of T "unat s" e] Cons.prems(2) by simp
  from Cons.IH [OF l1 c1] obtain T' where T':
    "fill es n ?T1 = Some (Inr T')" "length T' = unat n"
    "\<forall>j<unat n. hash (?T1 ! j) \<noteq> 0 \<longrightarrow> T' ! j = ?T1 ! j"
    "\<forall>j<unat n. hash (T' ! j) \<noteq> 0 \<longrightarrow> hash (?T1 ! j) \<noteq> 0 \<or> T' ! j \<in> set es"
    "card (taken T') \<le> card (taken ?T1) + length es"
    "\<forall>j<unat n. T' ! j = ?T1 ! j \<or> T' ! j \<in> set es"
    by blast
  have keep: "T' ! j = T ! j" if "j < unat n" "hash (T ! j) \<noteq> 0" for j
  proof -
    have "j \<noteq> unat s" using that(2) s(3) by auto
    then have "?T1 ! j = T ! j" by simp
    then show ?thesis using T'(3) that by simp
  qed
  have orig: "hash (T ! j) \<noteq> 0 \<or> T' ! j \<in> set (e # es)"
    if "j < unat n" "hash (T' ! j) \<noteq> 0" for j
  proof (cases "j = unat s")
    case True
    show ?thesis
    proof (cases "hash e = 0")
      case True
      then have "hash (?T1 ! j) = 0" using \<open>j = unat s\<close> that(1) Cons.prems(1) by simp
      then show ?thesis using T'(4) that by auto
    next
      case False
      then have "T' ! j = e" using T'(3) \<open>j = unat s\<close> that(1) Cons.prems(1) by simp
      then show ?thesis by simp
    qed
  next
    case False
    then have "?T1 ! j = T ! j" by simp
    then show ?thesis using T'(4) that by auto
  qed
  have src: "T' ! j = T ! j \<or> T' ! j \<in> set (e # es)" if "j < unat n" for j
  proof (cases "j = unat s")
    case True
    then have "?T1 ! j = e" using that Cons.prems(1) by simp
    then show ?thesis using T'(6) that by auto
  next
    case False
    then have "?T1 ! j = T ! j" by simp
    then show ?thesis using T'(6) that by auto
  qed
  have "card (taken T') \<le> card (taken T) + length (e # es)"
    using T'(5) taken_update [of T "unat s" e] by simp
  then show ?case using s(1) T'(1,2) keep orig src by auto
qed

lemma fill_append:
  "fill (es1 @ es2) n T =
     (case fill es1 n T of
        None \<Rightarrow> None
      | Some (Inl err) \<Rightarrow> Some (Inl err)
      | Some (Inr T1) \<Rightarrow> fill es2 n T1)"
  by (induction es1 arbitrary: T) (auto split: option.splits sum.splits)


text \<open>
  An entry with a hash other than 0 stays where it is put, and every slot the probe passes
  before it holds an entry that was there before or came earlier in the list.
\<close>

lemma fill_chain:
  assumes "length T = unat n" "card (taken T) + length (es1 @ e # es2) \<le> unat n"
    "hash e \<noteq> 0"
  shows "\<exists>T' t. fill (es1 @ e # es2) n T = Some (Inr T') \<and> length T' = unat n \<and> t < unat n
    \<and> T' ! ((unat (drop_bit 8 (hash e) mod n) + t) mod unat n) = e
    \<and> (\<forall>t'<t. hash (T' ! ((unat (drop_bit 8 (hash e) mod n) + t') mod unat n)) \<noteq> 0
          \<and> (hash (T ! ((unat (drop_bit 8 (hash e) mod n) + t') mod unat n)) \<noteq> 0
               \<or> T' ! ((unat (drop_bit 8 (hash e) mod n) + t') mod unat n) \<in> set es1))"
proof -
  let ?p = "\<lambda>t. (unat (drop_bit 8 (hash e) mod n) + t) mod unat n"
  have n0: "0 < unat n" using assms(2) by simp
  have p_lt: "?p t < unat n" for t using n0 by simp
  have c1: "card (taken T) + length es1 \<le> unat n" using assms(2) by simp
  from fill_inv [OF assms(1) c1] obtain T1 where T1:
    "fill es1 n T = Some (Inr T1)" "length T1 = unat n"
    "\<forall>j<unat n. hash (T1 ! j) \<noteq> 0 \<longrightarrow> hash (T ! j) \<noteq> 0 \<or> T1 ! j \<in> set es1"
    "card (taken T1) \<le> card (taken T) + length es1"
    by blast
  have c2: "card (taken T1) < unat n" using T1(4) assms(2) by simp
  from fill_step [OF T1(2) c2, of e es2] obtain s :: u64 and t where s:
    "fill (e # es2) n T1 = fill es2 n (T1[unat s := e])"
    "unat s = ?p t" "unat s < unat n" "t < unat n" "hash (T1 ! unat s) = 0"
    "\<forall>t'<t. hash (T1 ! ?p t') \<noteq> 0"
    by blast
  let ?T2 = "T1[unat s := e]"
  have l2: "length ?T2 = unat n" using T1(2) by simp
  have c3: "card (taken ?T2) + length es2 \<le> unat n"
    using taken_update [of T1 "unat s" e] T1(4) assms(2) by simp
  from fill_inv [OF l2 c3] obtain T' where T':
    "fill es2 n ?T2 = Some (Inr T')" "length T' = unat n"
    "\<forall>j<unat n. hash (?T2 ! j) \<noteq> 0 \<longrightarrow> T' ! j = ?T2 ! j"
    by blast
  have whole: "fill (es1 @ e # es2) n T = Some (Inr T')"
    using T1(1) s(1) T'(1) by (simp add: fill_append)
  have at: "T' ! ?p t = e"
  proof -
    have "?T2 ! unat s = e" using s(3) T1(2) by simp
    then have "T' ! unat s = e" using T'(3) s(3) assms(3) by auto
    then show ?thesis by (simp only: s(2))
  qed
  have before: "hash (T' ! ?p t') \<noteq> 0 \<and> (hash (T ! ?p t') \<noteq> 0 \<or> T' ! ?p t' \<in> set es1)"
    if "t' < t" for t'
  proof -
    have nz: "hash (T1 ! ?p t') \<noteq> 0" using s(6) that by simp
    then have "?p t' \<noteq> unat s" using s(5) by auto
    then have same: "?T2 ! ?p t' = T1 ! ?p t'" by simp
    then have "T' ! ?p t' = T1 ! ?p t'" using T'(3) p_lt [of t'] nz by auto
    then show ?thesis using nz T1(3) p_lt [of t'] by auto
  qed
  show ?thesis
  proof (intro exI conjI)
    show "fill (es1 @ e # es2) n T = Some (Inr T')" by (rule whole)
    show "length T' = unat n" by (rule T'(2))
    show "t < unat n" by (rule s(4))
    show "T' ! ?p t = e" by (rule at)
    show "\<forall>t'<t. hash (T' ! ?p t') \<noteq> 0 \<and> (hash (T ! ?p t') \<noteq> 0 \<or> T' ! ?p t' \<in> set es1)"
      using before by blast
  qed
qed

section \<open>The tables of finalize\<close>

lemma unat_of_nat_small: "m < 2 ^ 64 \<Longrightarrow> unat (of_nat m :: u64) = m"
  by (simp add: unat_of_nat)

lemma unat_table_size:
  assumes "length es < 2 ^ 63"
  shows "unat (table_size es) = 2 * length es"
proof -
  have "table_size es = of_nat (2 * length es)"
    by (simp add: table_size_def push_bit_eq_mult)
  moreover have "2 * length es < 2 ^ 64" using assms by simp
  ultimately show ?thesis by (simp only: unat_of_nat_small)
qed

lemma taken_replicate [simp]: "taken (replicate m \<lparr>hash = 0, offset = 0\<rparr>) = {}"
  by (auto simp add: taken_def)

lemma fill_total:
  assumes "length es < 2 ^ 63"
  shows "fill es (table_size es) (replicate (unat (table_size es)) \<lparr>hash = 0, offset = 0\<rparr>)
      = Some (Inr (table_of es))"
    and "length (table_of es) = 2 * length es"
proof -
  let ?T = "replicate (unat (table_size es)) \<lparr>hash = 0, offset = 0\<rparr>"
  have l: "length ?T = unat (table_size es)" by simp
  have c: "card (taken ?T) + length es \<le> unat (table_size es)"
    using assms by (simp add: unat_table_size)
  from fill_inv [OF l c] obtain T' where
    T': "fill es (table_size es) ?T = Some (Inr T')" "length T' = unat (table_size es)"
    by blast
  then have "table_of es = T'" by (simp add: table_of_def)
  then show "fill es (table_size es) ?T = Some (Inr (table_of es))"
    and "length (table_of es) = 2 * length es"
    using T' assms by (simp_all add: unat_table_size)
qed

lemma write_slots_state:
  assumes "bufferedWriter w = Some buf"
  shows "write_slots T w =
     Inr (w\<lparr>bufferedWriter := Some (buf @ slots_bytes T),
            bufferedOffset := bufferedOffset w + of_nat (16 * length T)\<rparr>)"
  using assms
proof (induction T arbitrary: w buf)
  case Nil
  then show ?case by (simp add: slots_bytes_def)
next
  case (Cons e T)
  let ?w1 = "w\<lparr>bufferedWriter := Some (buf @ tuple_bytes (hash e) (offset e)),
               bufferedOffset := bufferedOffset w + 16\<rparr>"
  have "bufferedWriter ?w1 = Some (buf @ tuple_bytes (hash e) (offset e))" by simp
  from Cons.IH [OF this] show ?case
    using Cons.prems by (simp add: slots_bytes_def algebra_simps)
qed

lemma finalize_table_state:
  assumes "bufferedWriter w = Some buf" "length (entries w ! i) < 2 ^ 63"
  shows "finalize_table i (index, w) =
     Some (Inr (index[i := \<lparr>offset_t = bufferedOffset w, length_t = table_size (entries w ! i)\<rparr>],
                w\<lparr>bufferedWriter := Some (buf @ slots_bytes (table_of (entries w ! i))),
                  bufferedOffset := bufferedOffset w + of_nat (32 * length (entries w ! i))\<rparr>))"
proof -
  have f: "fill (entries w ! i) (push_bit 1 (of_nat (length (entries w ! i))))
       (replicate (unat (push_bit 1 (of_nat (length (entries w ! i))) :: u64))
          \<lparr>hash = 0, offset = 0\<rparr>)
     = Some (Inr (table_of (entries w ! i)))"
    using fill_total(1) [OF assms(2)] by (simp add: table_size_def)
  have l: "16 * length (table_of (entries w ! i)) = 32 * length (entries w ! i)"
    using fill_total(2) [OF assms(2)] by simp
  show ?thesis
    unfolding finalize_table_def
    using f write_slots_state [OF assms(1), of "table_of (entries w ! i)"]
    by (simp add: Let_def l table_size_def)
qed

lemma finalize_tables_state:
  assumes "bufferedWriter w = Some buf" "\<forall>i\<in>set ns. length (entries w ! i) < 2 ^ 63"
  shows "finalize_tables ns (index, w) =
     Some (Inr (index_after ns (bufferedOffset w) (entries w) index,
                w\<lparr>bufferedWriter :=
                     Some (buf @ concat (map (\<lambda>i. slots_bytes (table_of (entries w ! i))) ns)),
                  bufferedOffset := bufferedOffset w
                     + of_nat (sum_list (map (\<lambda>i. 32 * length (entries w ! i)) ns))\<rparr>))"
  using assms
proof (induction ns arbitrary: w buf index)
  case Nil
  then show ?case by simp
next
  case (Cons i ns)
  let ?w1 = "w\<lparr>bufferedWriter := Some (buf @ slots_bytes (table_of (entries w ! i))),
               bufferedOffset := bufferedOffset w + of_nat (32 * length (entries w ! i))\<rparr>"
  have li: "length (entries w ! i) < 2 ^ 63" using Cons.prems(2) by simp
  have b1: "bufferedWriter ?w1 = Some (buf @ slots_bytes (table_of (entries w ! i)))" by simp
  have l1: "\<forall>i\<in>set ns. length (entries ?w1 ! i) < 2 ^ 63" using Cons.prems(2) by simp
  show ?case
    using finalize_table_state [OF Cons.prems(1) li, of index] Cons.IH [OF b1 l1]
    by (simp add: algebra_simps)
qed

lemma index_after_length [simp]: "length (index_after ns off E index) = length index"
  by (induction ns arbitrary: off index) simp_all

lemma index_after_other:
  "i \<notin> set ns \<Longrightarrow> index_after ns off E index ! i = index ! i"
  by (induction ns arbitrary: off index) simp_all

lemma index_after_nth:
  assumes "distinct ns" "m < length ns" "ns ! m < length index"
  shows "index_after ns off E index ! (ns ! m) =
     \<lparr>offset_t = off + of_nat (sum_list (map (\<lambda>i. 32 * length (E ! i)) (take m ns))),
      length_t = table_size (E ! (ns ! m))\<rparr>"
  using assms
proof (induction ns arbitrary: off index m)
  case Nil
  then show ?case by simp
next
  case (Cons i ns)
  show ?case
  proof (cases m)
    case 0
    then show ?thesis using Cons.prems by (simp add: index_after_other)
  next
    case (Suc m')
    have "index_after ns (off + of_nat (32 * length (E ! i))) E
            (index[i := \<lparr>offset_t = off, length_t = table_size (E ! i)\<rparr>]) ! (ns ! m') =
      \<lparr>offset_t = off + of_nat (32 * length (E ! i))
          + of_nat (sum_list (map (\<lambda>i. 32 * length (E ! i)) (take m' ns))),
       length_t = table_size (E ! (ns ! m'))\<rparr>"
      using Cons.prems Suc by (intro Cons.IH) simp_all
    then show ?thesis using Suc by (simp add: algebra_simps)
  qed
qed

lemma index_after_upt:
  assumes "i < 256" "length index = 256"
  shows "index_after [0..<256] off E index ! i =
     \<lparr>offset_t = off + of_nat (sum_list (map (\<lambda>i. 32 * length (E ! i)) [0..<i])),
      length_t = table_size (E ! i)\<rparr>"
proof -
  have "index_after [0..<256] off E index ! ([0..<256] ! i) =
     \<lparr>offset_t = off + of_nat (sum_list (map (\<lambda>i. 32 * length (E ! i)) (take i [0..<256]))),
      length_t = table_size (E ! ([0..<256] ! i))\<rparr>"
    using assms by (intro index_after_nth) simp_all
  moreover have "[0..<256] ! i = i" using assms(1) by simp
  moreover have "take i [0..<256] = [0..<i]" using assms(1) by (simp add: take_upt)
  ultimately show ?thesis by simp
qed

lemma length_header_bytes: "length (header_bytes index) = 16 * length index"
  by (induction index) (simp_all add: header_bytes_def)

lemma Flush_at_end:
  assumes "\<not> closed s" "pos s = length (content s)"
  shows "\<exists>s1. Flush s bs = Inr s1 \<and> content s1 = content s @ bs \<and> \<not> closed s1
    \<and> closer s1 = closer s \<and> readerAt s1 = readerAt s"
  using assms by (cases "bs = []") (simp_all add: Flush_def Write_sink_def)

text \<open>\<open>finalize\<close> on a writer whose file holds the placeholder header and nothing else.\<close>

lemma finalize_state:
  assumes "bufferedWriter w = Some buf" "\<forall>i<256. length (entries w ! i) < 2 ^ 63"
    "\<not> closed (writer w)" "pos (writer w) = headerSize"
    "length (content (writer w)) = headerSize"
  shows "\<exists>w'. finalize w =
        Some (Inr (index_after [0..<256] (bufferedOffset w) (entries w)
                     (replicate 256 \<lparr>offset_t = 0, length_t = 0\<rparr>)), w')
    \<and> content (writer w') =
        header_bytes (index_after [0..<256] (bufferedOffset w) (entries w)
                        (replicate 256 \<lparr>offset_t = 0, length_t = 0\<rparr>))
          @ buf @ concat (map (\<lambda>i. slots_bytes (table_of (entries w ! i))) [0..<256])
    \<and> \<not> closed (writer w') \<and> closer (writer w') = closer (writer w)
    \<and> readerAt (writer w') = readerAt (writer w) \<and> hasher_w w' = hasher_w w
    \<and> finalizeOnce w' = finalizeOnce w
    \<and> bufferedWriter w' = None \<and> entries w' = entries w"
proof -
  let ?idx = "index_after [0..<256] (bufferedOffset w) (entries w)
                (replicate 256 \<lparr>offset_t = 0, length_t = 0\<rparr>)"
  let ?tabs = "concat (map (\<lambda>i. slots_bytes (table_of (entries w ! i))) [0..<256])"
  let ?w1 = "w\<lparr>bufferedWriter := Some (buf @ ?tabs),
               bufferedOffset := bufferedOffset w
                 + of_nat (sum_list (map (\<lambda>i. 32 * length (entries w ! i)) [0..<256]))\<rparr>"
  have small: "\<forall>i\<in>set [0..<256]. length (entries w ! i) < 2 ^ 63" using assms(2) by simp
  have loop: "finalize_tables [0..<256] (replicate 256 \<lparr>offset_t = 0, length_t = 0\<rparr>, w)
      = Some (Inr (?idx, ?w1))"
    by (rule finalize_tables_state [OF assms(1) small])
  have lh: "length (header_bytes ?idx) = headerSize"
    by (simp add: length_header_bytes headerSize_def)
  obtain s1 where s1: "Flush (writer w) (buf @ ?tabs) = Inr s1"
    "content s1 = content (writer w) @ buf @ ?tabs" "\<not> closed s1"
    "closer s1 = closer (writer w)" "readerAt s1 = readerAt (writer w)"
    using Flush_at_end [of "writer w" "buf @ ?tabs"] assms(3-5) by auto
  let ?s2 = "s1\<lparr>pos := 0\<rparr>"
  let ?s3 = "?s2\<lparr>content := header_bytes ?idx @ buf @ ?tabs, pos := headerSize\<rparr>"
  have s2: "Seek0 s1 = Inr ?s2" using s1(3) by (simp add: Seek0_def)
  have s3: "Write_sink ?s2 (header_bytes ?idx) = Inr ?s3"
    using s1(2,3) assms(5) lh by (simp add: Write_sink_def)
  have "finalize w = Some (Inr ?idx, ?w1\<lparr>bufferedWriter := None, writer := ?s3\<rparr>)"
    unfolding finalize_def using loop s1(1) s2 s3 by simp
  then show ?thesis
    using s1 by (intro exI [of _ "?w1\<lparr>bufferedWriter := None, writer := ?s3\<rparr>"]) simp
qed

section \<open>The file of a database written to a new file\<close>

lemma Create_state:
  "\<exists>w. Create = Inr w \<and> bufferedWriter w = Some [] \<and> entries w = replicate 256 []
    \<and> hasher_w w = cdb_hasher \<and> bufferedOffset w = of_nat headerSize
    \<and> \<not> finalizeOnce w \<and> \<not> closed (writer w) \<and> closer (writer w)
    \<and> pos (writer w) = headerSize \<and> content (writer w) = replicate headerSize 0
    \<and> readerAt (writer w)"
  by (simp add: Create_def NewWriter_def Seek0_def Write_sink_def)

lemma length_all_entries [simp]: "length (all_entries H off kvs) = length kvs"
  by (induction kvs arbitrary: off) simp_all

lemma length_le_file_size: "length kvs \<le> file_size kvs"
  by (simp add: file_size_def)

lemma length_table_entries: "length (table_entries kvs i) \<le> length kvs"
  unfolding table_entries_def
  by (rule order_trans [OF length_filter_le]) simp

lemma finalize_after_puts:
  assumes "file_size kvs < 2 ^ 63"
  shows "\<exists>w0 w1 w2. Create = Inr w0 \<and> puts w0 kvs = Inr w1 \<and> \<not> finalizeOnce w1
    \<and> finalize w1 = Some (Inr (index_of kvs), w2) \<and> content (writer w2) = layout kvs
    \<and> \<not> closed (writer w2) \<and> closer (writer w2) \<and> readerAt (writer w2)
    \<and> hasher_w w2 = cdb_hasher
    \<and> bufferedWriter w2 = None \<and> (\<forall>i<256. length (entries w2 ! i) < 2 ^ 63)"
proof -
  obtain w0 where w0: "Create = Inr w0" "bufferedWriter w0 = Some []"
    "entries w0 = replicate 256 []" "hasher_w w0 = cdb_hasher"
    "bufferedOffset w0 = of_nat headerSize" "\<not> finalizeOnce w0" "\<not> closed (writer w0)"
    "closer (writer w0)" "pos (writer w0) = headerSize"
    "content (writer w0) = replicate headerSize 0" "readerAt (writer w0)"
    using Create_state by blast
  have l0: "length (entries w0) = 256" using w0(3) by simp
  from puts_state [OF w0(2) l0, of kvs] obtain w1 where w1:
    "puts w0 kvs = Inr w1"
    "bufferedWriter w1 = Some ([] @ concat (map record_bytes kvs))"
    "bufferedOffset w1 = bufferedOffset w0 + of_nat (length (concat (map record_bytes kvs)))"
    "writer w1 = writer w0" "hasher_w w1 = hasher_w w0" "finalizeOnce w1 = finalizeOnce w0"
    "length (entries w1) = 256"
    "\<forall>i<256. entries w1 ! i =
          entries w0 ! i @ filter (\<lambda>e. unat (hash e AND 255) = i)
                            (all_entries (hasher_w w0) (bufferedOffset w0) kvs)"
    by blast
  have e1: "entries w1 = map (table_entries kvs) [0..<256]"
    using w1(7,8) w0(3,4,5) by (intro nth_equalityI) (simp_all add: table_entries_def)
  have small: "\<forall>i<256. length (entries w1 ! i) < 2 ^ 63"
  proof (intro allI impI)
    fix i :: nat
    assume "i < 256"
    then have "entries w1 ! i = table_entries kvs i" by (simp add: e1)
    then show "length (entries w1 ! i) < 2 ^ 63"
      using length_table_entries [of kvs i] length_le_file_size [of kvs] assms by simp
  qed
  have tabs: "map (\<lambda>i. slots_bytes (table_of (map (table_entries kvs) [0..<256] ! i))) [0..<256]
      = map (\<lambda>i. slots_bytes (table_of (table_entries kvs i))) [0..<256]"
    by (rule map_cong) simp_all
  from finalize_state [OF w1(2) small] w1(4) w0(7,9,10) obtain w2 where w2:
    "finalize w1 = Some (Inr (index_after [0..<256] (bufferedOffset w1) (entries w1)
                     (replicate 256 \<lparr>offset_t = 0, length_t = 0\<rparr>)), w2)"
    "content (writer w2) =
        header_bytes (index_after [0..<256] (bufferedOffset w1) (entries w1)
                        (replicate 256 \<lparr>offset_t = 0, length_t = 0\<rparr>))
          @ ([] @ concat (map record_bytes kvs))
          @ concat (map (\<lambda>i. slots_bytes (table_of (entries w1 ! i))) [0..<256])"
    "\<not> closed (writer w2)" "closer (writer w2) = closer (writer w1)"
    "readerAt (writer w2) = readerAt (writer w1)" "hasher_w w2 = hasher_w w1"
    "bufferedWriter w2 = None" "entries w2 = entries w1"
    by auto
  have c2: "content (writer w2) = layout kvs"
    unfolding w2(2) layout_def index_of_def w1(3) w0(5) e1 tabs by simp
  have ix: "index_after [0..<256] (bufferedOffset w1) (entries w1)
                     (replicate 256 \<lparr>offset_t = 0, length_t = 0\<rparr>) = index_of kvs"
    unfolding index_of_def w1(3) w0(5) e1 by simp
  show ?thesis
  proof (intro exI conjI)
    show "Create = Inr w0" by (rule w0(1))
    show "puts w0 kvs = Inr w1" by (rule w1(1))
    show "\<not> finalizeOnce w1" using w1(6) w0(6) by simp
    show "finalize w1 = Some (Inr (index_of kvs), w2)" using w2(1) by (simp only: ix)
    show "content (writer w2) = layout kvs" by (rule c2)
    show "\<not> closed (writer w2)" by (rule w2(3))
    show "closer (writer w2)" using w2(4) w1(4) w0(8) by simp
    show "readerAt (writer w2)" using w2(5) w1(4) w0(11) by simp
    show "hasher_w w2 = cdb_hasher" using w2(6) w1(5) w0(4) by simp
    show "bufferedWriter w2 = None" by (rule w2(7))
    show "\<forall>i<256. length (entries w2 ! i) < 2 ^ 63" using small by (simp only: w2(8))
  qed
qed

lemma written_layout:
  assumes "file_size kvs < 2 ^ 63"
  shows "written kvs = Some (layout kvs)"
proof -
  from finalize_after_puts [OF assms] obtain w0 w1 w2 where
    w: "Create = Inr w0" "puts w0 kvs = Inr w1" "\<not> finalizeOnce w1"
      "finalize w1 = Some (Inr (index_of kvs), w2)" "content (writer w2) = layout kvs"
      "\<not> closed (writer w2)" "closer (writer w2)"
    by blast
  have cl: "Close w1 = Some (None, w2\<lparr>finalizeOnce := True,
      writer := (writer w2)\<lparr>closed := True\<rparr>\<rparr>)"
    using w(3,4,6,7) by (simp add: Close_def finalize_once_def Close_sink_def)
  show ?thesis
    unfolding written_def w(1) using w(2,5) cl by simp
qed

text \<open>\<open>Freeze\<close> hands over the reader that \<open>New\<close> builds from the file.\<close>

lemma frozen_layout:
  assumes "file_size kvs < 2 ^ 63"
  shows "frozen kvs
     = Some \<lparr>reader = layout kvs, hasher = cdb_hasher, header = index_of kvs\<rparr>"
proof -
  from finalize_after_puts [OF assms] obtain w0 w1 w2 where
    w: "Create = Inr w0" "puts w0 kvs = Inr w1" "\<not> finalizeOnce w1"
      "finalize w1 = Some (Inr (index_of kvs), w2)" "content (writer w2) = layout kvs"
      "readerAt (writer w2)" "hasher_w w2 = cdb_hasher"
    by blast
  have fr: "Freeze w1 = Some (Inr \<lparr>reader = layout kvs, hasher = cdb_hasher,
      header = index_of kvs\<rparr>, w2\<lparr>finalizeOnce := True\<rparr>)"
    using w(3-7) by (simp add: Freeze_def finalize_once_def)
  show ?thesis
    unfolding frozen_def w(1) using w(2) fr by simp
qed

section \<open>Reading the index back\<close>

lemma Uint64_take [simp]: "Uint64 (take 8 b) = Uint64 b"
  by (simp add: Uint64_def)

lemma drop_header_bytes:
  "i \<le> length index \<Longrightarrow> drop (i * 16) (header_bytes index) = header_bytes (drop i index)"
proof (induction index arbitrary: i)
  case Nil
  then show ?case by (simp add: header_bytes_def)
next
  case (Cons t index)
  show ?case
  proof (cases i)
    case 0
    then show ?thesis by simp
  next
    case (Suc j)
    have "header_bytes (t # index) = (PutUint64 (offset_t t) @ PutUint64 (length_t t)) @ header_bytes index"
      by (simp add: header_bytes_def)
    then have "drop (Suc j * 16) (header_bytes (t # index)) = drop (j * 16) (header_bytes index)"
      by simp
    then show ?thesis using Cons Suc by simp
  qed
qed

lemma header_bytes_at:
  assumes "i < length index"
  shows "drop (i * 16) (header_bytes index) =
     PutUint64 (offset_t (index ! i)) @ PutUint64 (length_t (index ! i))
       @ header_bytes (drop (Suc i) index)"
proof -
  have "drop i index = index ! i # drop (Suc i) index"
    using assms by (simp add: Cons_nth_drop_Suc)
  then show ?thesis
    using assms drop_header_bytes [of i index] by (simp add: header_bytes_def)
qed

lemma decode_header_entry:
  assumes "i < length index"
  shows "\<lparr>offset_t = Uint64 (drop (i * 16) (header_bytes index)),
          length_t = Uint64 (drop (i * 16 + 8) (header_bytes index))\<rparr> = index ! i"
proof -
  have "drop (i * 16 + 8) (header_bytes index) = drop 8 (drop (i * 16) (header_bytes index))"
    by (simp add: add.commute)
  then show ?thesis
    using header_bytes_at [OF assms] by simp
qed

lemma readHeader_header_bytes:
  assumes "length index = 256"
  shows "readHeader (header_bytes index @ rest) = Inr index"
proof -
  have l: "length (header_bytes index) = headerSize"
    using assms by (simp add: length_header_bytes headerSize_def)
  then have r: "ReadAt (header_bytes index @ rest) headerSize 0 = Inr (header_bytes index)"
    by (simp add: ReadAt_def headerSize_def)
  have "map (\<lambda>i. \<lparr>offset_t = Uint64 (take 8 (drop (i * 16) (header_bytes index))),
          length_t = Uint64 (take 8 (drop (i * 16 + 8) (header_bytes index)))\<rparr>) [0..<256] = index"
    using assms by (intro nth_equalityI) (simp_all add: decode_header_entry)
  then show ?thesis unfolding readHeader_def r by simp
qed

lemma length_index_of [simp]: "length (index_of kvs) = 256"
  by (simp add: index_of_def)

lemma New_layout:
  "New (layout kvs) None = Inr \<lparr>reader = layout kvs, hasher = cdb_hasher, header = index_of kvs\<rparr>"
  by (simp add: New_def layout_def readHeader_header_bytes)

section \<open>The size of the file and the place of each slot\<close>

lemma length_slots_bytes: "length (slots_bytes T) = 16 * length T"
  by (induction T) (simp_all add: slots_bytes_def)

lemma sum_filter_classes:
  assumes "\<forall>x\<in>set xs. f x < (n :: nat)"
  shows "(\<Sum>i<n. length (filter (\<lambda>x. f x = i) xs)) = length xs"
  using assms
proof (induction xs)
  case Nil
  then show ?case by simp
next
  case (Cons a xs)
  have "(\<Sum>i<n. length (filter (\<lambda>x. f x = i) (a # xs)))
      = (\<Sum>i<n. (if f a = i then 1 else 0) + length (filter (\<lambda>x. f x = i) xs))"
    by (rule sum.cong) simp_all
  also have "\<dots> = (\<Sum>i<n. if f a = i then 1 else 0) + (\<Sum>i<n. length (filter (\<lambda>x. f x = i) xs))"
    by (rule sum.distrib)
  also have "(\<Sum>i<n. if f a = i then 1 else 0) = (if f a \<in> {..<n} then (1::nat) else 0)"
    by (rule sum.delta') simp
  also have "\<dots> = 1" using Cons.prems by simp
  finally show ?case using Cons by simp
qed

lemma sum_list_upt: "sum_list (map g [0..<n]) = (\<Sum>i<n. g i)"
  by (simp add: interv_sum_list_conv_sum_set_nat atLeast0LessThan)

lemma sum_table_entries:
  "sum_list (map (\<lambda>j. 32 * length (table_entries kvs j)) [0..<256]) = 32 * length kvs"
proof -
  have "(\<Sum>i<256. length (filter (\<lambda>e. unat (hash e AND 255) = i)
            (all_entries cdb_hasher (of_nat headerSize) kvs)))
      = length (all_entries cdb_hasher (of_nat headerSize) kvs)"
    by (rule sum_filter_classes) (simp add: low_byte_less)
  then have "(\<Sum>i<256. length (table_entries kvs i)) = length kvs"
    by (simp add: table_entries_def)
  then show ?thesis
    by (simp add: sum_list_upt sum_distrib_left [symmetric])
qed

lemma length_table_of_entries:
  assumes "file_size kvs < 2 ^ 63"
  shows "length (table_of (table_entries kvs j)) = 2 * length (table_entries kvs j)"
    and "fill (table_entries kvs j) (table_size (table_entries kvs j))
           (replicate (unat (table_size (table_entries kvs j))) \<lparr>hash = 0, offset = 0\<rparr>)
         = Some (Inr (table_of (table_entries kvs j)))"
    and "unat (table_size (table_entries kvs j)) = 2 * length (table_entries kvs j)"
proof -
  have "length (table_entries kvs j) < 2 ^ 63"
    using length_table_entries [of kvs j] length_le_file_size [of kvs] assms by simp
  then show "length (table_of (table_entries kvs j)) = 2 * length (table_entries kvs j)"
    and "fill (table_entries kvs j) (table_size (table_entries kvs j))
           (replicate (unat (table_size (table_entries kvs j))) \<lparr>hash = 0, offset = 0\<rparr>)
         = Some (Inr (table_of (table_entries kvs j)))"
    and "unat (table_size (table_entries kvs j)) = 2 * length (table_entries kvs j)"
    by (rule fill_total(2), rule fill_total(1), rule unat_table_size)
qed

lemma length_tables_upto:
  assumes "file_size kvs < 2 ^ 63"
  shows "length (concat (map (\<lambda>j. slots_bytes (table_of (table_entries kvs j))) [0..<i]))
     = sum_list (map (\<lambda>j. 32 * length (table_entries kvs j)) [0..<i])"
proof -
  have eq: "map (\<lambda>j. length (slots_bytes (table_of (table_entries kvs j)))) [0..<i]
      = map (\<lambda>j. 32 * length (table_entries kvs j)) [0..<i]"
    by (rule map_cong) (simp_all add: length_slots_bytes length_table_of_entries(1) [OF assms])
  have "length (concat (map (\<lambda>j. slots_bytes (table_of (table_entries kvs j))) [0..<i]))
      = sum_list (map (\<lambda>j. length (slots_bytes (table_of (table_entries kvs j)))) [0..<i])"
    by (simp add: length_concat comp_def)
  also have "\<dots> = sum_list (map (\<lambda>j. 32 * length (table_entries kvs j)) [0..<i])"
    by (simp only: eq)
  finally show ?thesis .
qed

lemma length_layout:
  assumes "file_size kvs < 2 ^ 63"
  shows "length (layout kvs) = file_size kvs"
  using length_tables_upto [OF assms, of 256]
  by (simp add: layout_def file_size_def length_header_bytes headerSize_def sum_table_entries)

lemma table_pos_le:
  assumes "i \<le> 256"
  shows "table_pos kvs i + 32 * length (table_entries kvs i) \<le> file_size kvs + 32 * length (table_entries kvs i)"
    and "i < 256 \<Longrightarrow> table_pos kvs i + 32 * length (table_entries kvs i) \<le> file_size kvs"
proof -
  have split: "[0..<256] = [0..<i] @ [i..<256]"
    using assms by (metis le0 upt_add_eq_append le_add_diff_inverse)
  have "sum_list (map (\<lambda>j. 32 * length (table_entries kvs j)) [0..<i])
      + sum_list (map (\<lambda>j. 32 * length (table_entries kvs j)) [i..<256]) = 32 * length kvs"
    using sum_table_entries [of kvs] by (subst (asm) split) simp
  then have a: "sum_list (map (\<lambda>j. 32 * length (table_entries kvs j)) [0..<i]) \<le> 32 * length kvs"
    and b: "sum_list (map (\<lambda>j. 32 * length (table_entries kvs j)) [0..<i])
      + sum_list (map (\<lambda>j. 32 * length (table_entries kvs j)) [i..<256]) = 32 * length kvs"
    by simp_all
  show "table_pos kvs i + 32 * length (table_entries kvs i) \<le> file_size kvs + 32 * length (table_entries kvs i)"
    using a by (simp add: table_pos_def file_size_def)
  show "table_pos kvs i + 32 * length (table_entries kvs i) \<le> file_size kvs" if "i < 256"
  proof -
    have "[i..<256] = i # [Suc i..<256]" using that by (simp add: upt_conv_Cons)
    then show ?thesis using b by (simp add: table_pos_def file_size_def)
  qed
qed

lemma index_of_nth:
  assumes "i < 256"
  shows "index_of kvs ! i =
    \<lparr>offset_t = of_nat (table_pos kvs i), length_t = table_size (table_entries kvs i)\<rparr>"
proof -
  let ?E = "map (table_entries kvs) [0..<256]"
  have m: "map (\<lambda>j. 32 * length (?E ! j)) [0..<i] = map (\<lambda>j. 32 * length (table_entries kvs j)) [0..<i]"
    using assms by (intro map_cong) simp_all
  have e: "?E ! i = table_entries kvs i" using assms by simp
  have "index_of kvs ! i =
     \<lparr>offset_t = of_nat headerSize + of_nat (length (concat (map record_bytes kvs)))
         + of_nat (sum_list (map (\<lambda>j. 32 * length (?E ! j)) [0..<i])),
      length_t = table_size (?E ! i)\<rparr>"
    unfolding index_of_def by (rule index_after_upt [OF assms]) simp
  then show ?thesis
    unfolding m e table_pos_def by simp
qed

lemma slots_bytes_split:
  assumes "s < length T"
  shows "slots_bytes T = slots_bytes (take s T) @ tuple_bytes (hash (T ! s)) (offset (T ! s))
      @ slots_bytes (drop (Suc s) T)"
proof -
  have "T = take s T @ T ! s # drop (Suc s) T" using assms by (rule id_take_nth_drop)
  then have "slots_bytes T = slots_bytes (take s T @ T ! s # drop (Suc s) T)" by simp
  then show ?thesis by (simp add: slots_bytes_def)
qed

lemma upt_split: "i < n \<Longrightarrow> [0..<n] = [0..<i] @ i # [Suc i..<n]"
  by (metis le0 upt_add_eq_append less_imp_le_nat le_add_diff_inverse upt_conv_Cons)

lemma read_slot:
  assumes "file_size kvs < 2 ^ 63" "i < 256"
    "unat slot < length (table_of (table_entries kvs i))"
  shows "readTuple (layout kvs) (offset_t (index_of kvs ! i) + 16 * slot) =
     Inr (hash (table_of (table_entries kvs i) ! unat slot),
          offset (table_of (table_entries kvs i) ! unat slot))"
proof -
  let ?T = "table_of (table_entries kvs i)"
  let ?f = "\<lambda>j. slots_bytes (table_of (table_entries kvs j))"
  let ?A = "header_bytes (index_of kvs) @ concat (map record_bytes kvs)
      @ concat (map ?f [0..<i]) @ slots_bytes (take (unat slot) ?T)"
  let ?B = "slots_bytes (drop (Suc (unat slot)) ?T) @ concat (map ?f [Suc i..<256])"
  have lay: "layout kvs = ?A @ tuple_bytes (hash (?T ! unat slot)) (offset (?T ! unat slot)) @ ?B"
    unfolding layout_def
    by (subst upt_split [OF assms(2)]) (simp add: slots_bytes_split [OF assms(3)])
  have lA: "length ?A = table_pos kvs i + 16 * unat slot"
    using assms(3)
    by (simp add: length_header_bytes length_tables_upto [OF assms(1)] length_slots_bytes
        table_pos_def headerSize_def)
  have lT: "length ?T = 2 * length (table_entries kvs i)"
    by (rule length_table_of_entries(1) [OF assms(1)])
  have bound: "table_pos kvs i + 16 * unat slot < 2 ^ 63"
    using table_pos_le(2) [OF _ assms(2), of kvs] assms(1,2,3) lT by simp
  have "offset_t (index_of kvs ! i) + 16 * slot = of_nat (table_pos kvs i + 16 * unat slot)"
    by (simp add: index_of_nth [OF assms(2)])
  moreover have "unat (of_nat (table_pos kvs i + 16 * unat slot) :: u64)
      = table_pos kvs i + 16 * unat slot"
    using bound by (intro unat_of_nat_small) simp
  ultimately have u: "unat (offset_t (index_of kvs ! i) + 16 * slot) = length ?A"
    using lA by simp
  show ?thesis
    unfolding lay
    by (rule readTuple_middle [OF u]) (use lA bound in simp)
qed

section \<open>Reading a record back\<close>

lemma all_entries_append:
  "all_entries H off (ps1 @ ps2) =
     all_entries H off ps1
       @ all_entries H (off + of_nat (length (concat (map record_bytes ps1)))) ps2"
  by (induction ps1 arbitrary: off) (simp_all add: algebra_simps)

lemma entry_origin:
  assumes "e \<in> set (all_entries H off ps)"
  shows "\<exists>ps1 kv ps2. ps = ps1 @ kv # ps2
    \<and> e = \<lparr>hash = H (Some (fst kv)),
            offset = off + of_nat (length (concat (map record_bytes ps1)))\<rparr>"
  using assms
proof (induction ps arbitrary: off)
  case Nil
  then show ?case by simp
next
  case (Cons kv ps)
  show ?case
  proof (cases "e = \<lparr>hash = H (Some (fst kv)), offset = off\<rparr>")
    case True
    then have "kv # ps = [] @ kv # ps \<and> e = \<lparr>hash = H (Some (fst kv)),
            offset = off + of_nat (length (concat (map record_bytes [])))\<rparr>"
      by simp
    then show ?thesis by blast
  next
    case False
    then have "e \<in> set (all_entries H (off + of_nat (length (record_bytes kv))) ps)"
      using Cons.prems by simp
    from Cons.IH [OF this] obtain ps1 kv' ps2 where
      "ps = ps1 @ kv' # ps2"
      "e = \<lparr>hash = H (Some (fst kv')),
            offset = off + of_nat (length (record_bytes kv))
               + of_nat (length (concat (map record_bytes ps1)))\<rparr>"
      by blast
    then have "kv # ps = (kv # ps1) @ kv' # ps2 \<and> e = \<lparr>hash = H (Some (fst kv')),
            offset = off + of_nat (length (concat (map record_bytes (kv # ps1))))\<rparr>"
      by (simp add: algebra_simps)
    then show ?thesis by blast
  qed
qed

lemma getValueAt_record:
  assumes "file_size kvs < 2 ^ 63" "kvs = ps1 @ (k, v) # ps2" "file_size kvs \<le> maxAlloc"
  shows "getValueAt \<lparr>reader = layout kvs, hasher = H, header = idx\<rparr>
      (of_nat headerSize + of_nat (length (concat (map record_bytes ps1)))) (Some key)
    = Inr (if k = key then Some v else None)"
proof -
  let ?P = "headerSize + length (concat (map record_bytes ps1))"
  let ?off = "of_nat headerSize + of_nat (length (concat (map record_bytes ps1))) :: u64"
  let ?A = "header_bytes (index_of kvs) @ concat (map record_bytes ps1)"
  let ?B = "concat (map record_bytes ps2)
      @ concat (map (\<lambda>i. slots_bytes (table_of (table_entries kvs i))) [0..<256])"
  let ?kl = "of_nat (length k) :: u64"
  let ?vl = "of_nat (length v) :: u64"
  have lay: "layout kvs = ?A @ tuple_bytes ?kl ?vl @ (k @ v) @ ?B"
    by (simp add: layout_def assms(2) record_bytes_def)
  have lay2: "layout kvs = (?A @ tuple_bytes ?kl ?vl) @ (k @ v) @ ?B"
    by (simp add: lay)
  have lA: "length ?A = ?P" by (simp add: length_header_bytes headerSize_def)
  have total: "?P + 16 + length k + length v < 2 ^ 63"
    using assms(1) by (simp add: file_size_def assms(2) length_record_bytes)
  have off: "?off = of_nat ?P" by simp
  have uoff: "unat ?off = ?P"
    unfolding off using total by (intro unat_of_nat_small) simp
  have rt: "readTuple (layout kvs) ?off = Inr (?kl, ?vl)"
    unfolding lay by (rule readTuple_middle) (use uoff lA total in simp_all)
  have ukl: "unat ?kl = length k" using total by (intro unat_of_nat_small) simp
  have skl: "sint ?kl = int (length k)"
    using sint_small [of ?kl] ukl total by simp
  have "?kl + ?vl = of_nat (length k + length v)" by simp
  then have usum: "unat (?kl + ?vl) = length k + length v"
    using total unat_of_nat_small [of "length k + length v"] by simp
  have "?off + 16 = of_nat (?P + 16)" by simp
  then have u16: "unat (?off + 16) = ?P + 16"
    using total unat_of_nat_small [of "?P + 16"] by simp
  have s16: "sint (?off + 16) = int (?P + 16)"
    using sint_small [of "?off + 16"] u16 total by simp
  have n1: "0 \<le> int (?P + 16)" by simp
  have n2: "nat (int (?P + 16)) = length (?A @ tuple_bytes ?kl ?vl)"
    unfolding nat_int using lA by simp
  have n3: "length (k @ v) = length k + length v" by simp
  have rd: "ReadAt (layout kvs) (length k + length v) (sint (?off + 16)) = Inr (k @ v)"
    unfolding lay2 s16 by (rule ReadAt_middle [OF n1 n2 n3])
  have nop: "\<not> maxAlloc < length k + length v"
    using assms(3) by (simp add: file_size_def assms(2) length_record_bytes)
  have gv: "getValueAt \<lparr>reader = layout kvs, hasher = H, header = idx\<rparr> ?off (Some key)
    = (if int (length k) \<noteq> int (length key) then Inr None
       else if length (k @ v) < length k then Inl Panic
       else if take (length k) (k @ v) \<noteq> key then Inr None
       else Inr (Some (drop (length k) (k @ v))))"
    by (simp only: getValueAt_def CDB.select_convs rt sum.case prod.case skl len_def elems_def
        option.case usum rd ukl nop if_False)
  show ?thesis unfolding gv by auto
qed

section \<open>The probe of Get\<close>

lemma mod_add_ne:
  assumes "a < n" "0 < x" "x < (n :: nat)"
  shows "(a + x) mod n \<noteq> a"
proof (cases "a + x < n")
  case True
  then show ?thesis using assms by simp
next
  case False
  then have "(a + x) mod n = a + x - n"
    using assms by (simp add: mod_if)
  then show ?thesis using assms False by simp
qed

lemma probe_finds_from:
  assumes n: "length_t tbl \<noteq> 0" and lT: "length T = unat (length_t tbl)"
    and rd: "\<And>slot. unat slot < length T \<Longrightarrow>
       readTuple (reader cdb) (offset_t tbl + 16 * slot)
         = Inr (hash (T ! unat slot), offset (T ! unat slot))"
    and t: "t < unat (length_t tbl)"
    and at: "T ! ((unat (drop_bit 8 h mod length_t tbl) + t) mod unat (length_t tbl)) = e"
    and e: "hash e = h" "h \<noteq> 0" "getValueAt cdb (offset e) key = Inr (Some v)"
    and before: "\<And>t'. t' < t \<Longrightarrow>
       hash (T ! ((unat (drop_bit 8 h mod length_t tbl) + t') mod unat (length_t tbl))) \<noteq> 0
       \<and> (hash (T ! ((unat (drop_bit 8 h mod length_t tbl) + t') mod unat (length_t tbl))) = h
            \<longrightarrow> getValueAt cdb
                  (offset (T ! ((unat (drop_bit 8 h mod length_t tbl) + t') mod unat (length_t tbl))))
                  key = Inr None)"
    and d: "j + d = t"
    and slot: "unat slot = (unat (drop_bit 8 h mod length_t tbl) + j) mod unat (length_t tbl)"
  shows "probe cdb key h tbl slot = Inr (Some v)"
  using d slot
proof (induction d arbitrary: j slot)
  case 0
  have lt: "unat slot < length T" using 0(2) n lT by (simp add: unat_gt_0)
  have "T ! unat slot = e" using at 0 by simp
  then have r: "readTuple (reader cdb) (offset_t tbl + 16 * slot) = Inr (h, offset e)"
    using rd [OF lt] e(1) by simp
  show ?case
    by (subst probe.simps) (simp add: r e)
next
  case (Suc d)
  let ?n = "length_t tbl"
  let ?home = "unat (drop_bit 8 h mod ?n)"
  let ?x = "T ! unat slot"
  have j: "j < t" using Suc.prems(1) by simp
  have n0: "0 < unat ?n" using n by (simp add: unat_gt_0)
  have home: "?home < unat ?n" using n by (rule unat_mod_less)
  have lt: "unat slot < unat ?n" using Suc.prems(2) n0 by simp
  have r: "readTuple (reader cdb) (offset_t tbl + 16 * slot) = Inr (hash ?x, offset ?x)"
    using rd [of slot] lt lT by simp
  have x: "hash ?x \<noteq> 0" "hash ?x = h \<longrightarrow> getValueAt cdb (offset ?x) key = Inr None"
    using before [OF j] Suc.prems(2) by simp_all
  let ?s = "(slot + 1) mod ?n"
  have us: "unat ?s = (unat slot + 1) mod unat ?n" using lt by (rule unat_next_slot)
  have us2: "unat ?s = (?home + Suc j) mod unat ?n"
    unfolding us Suc.prems(2) by (simp add: mod_Suc_eq)
  have "0 < Suc j" "Suc j < unat ?n" using j t by simp_all
  then have "(?home + Suc j) mod unat ?n \<noteq> ?home"
    using home by (intro mod_add_ne)
  then have ne: "?s \<noteq> drop_bit 8 h mod ?n"
    using us2 by auto
  have ih: "probe cdb key h tbl ?s = Inr (Some v)"
    using Suc.prems(1) us2 by (intro Suc.IH [of "Suc j"]) simp_all
  show ?case
    apply (subst probe.simps)
    using x n ne ih apply (simp add: r)
    done
qed

lemma probe_finds:
  assumes "length_t tbl \<noteq> 0" "length T = unat (length_t tbl)"
    and "\<And>slot. unat slot < length T \<Longrightarrow>
       readTuple (reader cdb) (offset_t tbl + 16 * slot)
         = Inr (hash (T ! unat slot), offset (T ! unat slot))"
    and "t < unat (length_t tbl)"
    and "T ! ((unat (drop_bit 8 h mod length_t tbl) + t) mod unat (length_t tbl)) = e"
    and "hash e = h" "h \<noteq> 0" "getValueAt cdb (offset e) key = Inr (Some v)"
    and "\<And>t'. t' < t \<Longrightarrow>
       hash (T ! ((unat (drop_bit 8 h mod length_t tbl) + t') mod unat (length_t tbl))) \<noteq> 0
       \<and> (hash (T ! ((unat (drop_bit 8 h mod length_t tbl) + t') mod unat (length_t tbl))) = h
            \<longrightarrow> getValueAt cdb
                  (offset (T ! ((unat (drop_bit 8 h mod length_t tbl) + t') mod unat (length_t tbl))))
                  key = Inr None)"
  shows "probe cdb key h tbl (drop_bit 8 h mod length_t tbl) = Inr (Some v)"
proof -
  have "unat (drop_bit 8 h mod length_t tbl) < unat (length_t tbl)"
    using assms(1) by (rule unat_mod_less)
  then have "unat (drop_bit 8 h mod length_t tbl)
     = (unat (drop_bit 8 h mod length_t tbl) + 0) mod unat (length_t tbl)"
    by simp
  with assms show ?thesis
    by (intro probe_finds_from [where d = t and t = t and T = T and e = e and j = 0]) simp_all
qed

section \<open>Get after the puts\<close>

lemma map_of_first:
  "map_of kvs k = Some v \<Longrightarrow> \<exists>ps1 ps2. kvs = ps1 @ (k, v) # ps2 \<and> k \<notin> fst ` set ps1"
proof (induction kvs)
  case Nil
  then show ?case by simp
next
  case (Cons kv kvs)
  show ?case
  proof (cases "fst kv = k")
    case True
    then have "kv # kvs = [] @ (k, v) # kvs \<and> k \<notin> fst ` set []"
      using Cons.prems by (cases kv) simp
    then show ?thesis by blast
  next
    case False
    then have "map_of kvs k = Some v" using Cons.prems by (cases kv) simp
    from Cons.IH [OF this] obtain ps1 ps2 where "kvs = ps1 @ (k, v) # ps2" "k \<notin> fst ` set ps1"
      by blast
    then have "kv # kvs = (kv # ps1) @ (k, v) # ps2 \<and> k \<notin> fst ` set (kv # ps1)"
      using False by auto
    then show ?thesis by blast
  qed
qed

lemma Get_layout:
  assumes size: "file_size kvs < 2 ^ 63" and kvs: "kvs = ps1 @ (k, v) # ps2"
    and first: "k \<notin> fst ` set ps1" and h0: "cdb_hasher (Some k) \<noteq> 0"
    and alloc: "file_size kvs \<le> maxAlloc"
  shows "Get \<lparr>reader = layout kvs, hasher = cdb_hasher, header = index_of kvs\<rparr> (Some k)
     = Inr (Some v)"
proof -
  let ?cdb = "\<lparr>reader = layout kvs, hasher = cdb_hasher, header = index_of kvs\<rparr>"
  let ?h = "cdb_hasher (Some k)"
  let ?i = "unat (?h AND 255)"
  let ?base = "of_nat headerSize :: u64"
  let ?P = "\<lambda>e. unat (hash e AND 255) = ?i"
  let ?e = "\<lparr>hash = ?h, offset = ?base + of_nat (length (concat (map record_bytes ps1)))\<rparr>"
  let ?esa = "filter ?P (all_entries cdb_hasher ?base ps1)"
  let ?esb = "filter ?P (all_entries cdb_hasher
       (?base + of_nat (length (concat (map record_bytes ps1))) + of_nat (length (record_bytes (k, v)))) ps2)"
  let ?E = "table_entries kvs ?i"
  let ?n = "table_size ?E"
  let ?T = "table_of ?E"
  let ?Z = "replicate (unat ?n) \<lparr>hash = 0, offset = 0\<rparr>"
  have i: "?i < 256" by (rule low_byte_less)
  have E: "?E = ?esa @ ?e # ?esb"
    by (simp add: table_entries_def kvs all_entries_append)
  have un: "unat ?n = 2 * length ?E" by (rule length_table_of_entries(3) [OF size])
  have lT: "length ?T = unat ?n" using length_table_of_entries(1) [OF size, of ?i] un by simp
  have f: "fill ?E ?n ?Z = Some (Inr ?T)" by (rule length_table_of_entries(2) [OF size])
  have l0: "length ?Z = unat ?n" by simp
  have c0: "card (taken ?Z) + length (?esa @ ?e # ?esb) \<le> unat ?n"
  proof -
    have "length (?esa @ ?e # ?esb) = length ?E" by (simp only: E)
    moreover have "card (taken ?Z) = 0" by simp
    ultimately show ?thesis using un by linarith
  qed
  have he: "hash ?e \<noteq> 0" using h0 by simp
  from fill_chain [OF l0 c0 he] obtain T' t where
    T': "fill (?esa @ ?e # ?esb) ?n ?Z = Some (Inr T')" "t < unat ?n"
      "T' ! ((unat (drop_bit 8 (hash ?e) mod ?n) + t) mod unat ?n) = ?e"
      "\<forall>t'<t. hash (T' ! ((unat (drop_bit 8 (hash ?e) mod ?n) + t') mod unat ?n)) \<noteq> 0
          \<and> (hash (?Z ! ((unat (drop_bit 8 (hash ?e) mod ?n) + t') mod unat ?n)) \<noteq> 0
               \<or> T' ! ((unat (drop_bit 8 (hash ?e) mod ?n) + t') mod unat ?n) \<in> set ?esa)"
    by blast
  have TT: "T' = ?T" using T'(1) f by (simp add: E [symmetric])
  have n0: "?n \<noteq> 0" using T'(2) by auto
  have idx: "index_of kvs ! ?i = \<lparr>offset_t = of_nat (table_pos kvs ?i), length_t = ?n\<rparr>"
    by (rule index_of_nth [OF i])
  let ?tbl = "index_of kvs ! ?i"
  have lt: "length_t ?tbl = ?n" by (simp add: idx)
  have rd: "readTuple (reader ?cdb) (offset_t ?tbl + 16 * slot)
         = Inr (hash (?T ! unat slot), offset (?T ! unat slot))"
    if "unat slot < length ?T" for slot
    using read_slot [OF size i that] by simp
  have at: "getValueAt ?cdb (offset ?e) (Some k) = Inr (Some v)"
    using getValueAt_record [OF size kvs alloc, of cdb_hasher "index_of kvs" k] by simp
  have before: "hash (?T ! ((unat (drop_bit 8 ?h mod ?n) + t') mod unat ?n)) \<noteq> 0
       \<and> (hash (?T ! ((unat (drop_bit 8 ?h mod ?n) + t') mod unat ?n)) = ?h
            \<longrightarrow> getValueAt ?cdb (offset (?T ! ((unat (drop_bit 8 ?h mod ?n) + t') mod unat ?n)))
                  (Some k) = Inr None)"
    if "t' < t" for t'
  proof -
    let ?x = "?T ! ((unat (drop_bit 8 ?h mod ?n) + t') mod unat ?n)"
    have p: "(unat (drop_bit 8 ?h mod ?n) + t') mod unat ?n < unat ?n"
      using T'(2) by simp
    have nz: "hash ?x \<noteq> 0" using T'(4) that TT by simp
    have "?x \<in> set ?esa" using T'(4) that TT p by simp
    then have "?x \<in> set (all_entries cdb_hasher ?base ps1)" by simp
    from entry_origin [OF this] obtain qs1 kv qs2 where
      q: "ps1 = qs1 @ kv # qs2"
         "?x = \<lparr>hash = cdb_hasher (Some (fst kv)),
                offset = ?base + of_nat (length (concat (map record_bytes qs1)))\<rparr>"
      by blast
    have "fst kv \<noteq> k" using first q(1) by auto
    moreover have "kvs = qs1 @ (fst kv, snd kv) # (qs2 @ (k, v) # ps2)"
      using kvs q(1) by simp
    ultimately have "getValueAt ?cdb (?base + of_nat (length (concat (map record_bytes qs1)))) (Some k)
        = Inr None"
      using getValueAt_record [OF size _ alloc, of qs1 "fst kv" "snd kv" _ cdb_hasher "index_of kvs" k]
      by simp
    then have "getValueAt ?cdb (offset ?x) (Some k) = Inr None"
      by (simp add: q(2))
    then show ?thesis using nz by simp
  qed
  have pr: "probe ?cdb (Some k) ?h ?tbl (drop_bit 8 ?h mod length_t ?tbl) = Inr (Some v)"
  proof (rule probe_finds [where T = ?T and t = t and e = ?e])
    show "length_t ?tbl \<noteq> 0" using n0 lt by simp
    show "length ?T = unat (length_t ?tbl)" using lT lt by simp
    show "t < unat (length_t ?tbl)" using T'(2) lt by simp
    show "?T ! ((unat (drop_bit 8 ?h mod length_t ?tbl) + t) mod unat (length_t ?tbl)) = ?e"
      using T'(3) TT lt by simp
    show "hash ?e = ?h" by simp
    show "?h \<noteq> 0" by (rule h0)
    show "getValueAt ?cdb (offset ?e) (Some k) = Inr (Some v)" by (rule at)
    show "\<And>slot. unat slot < length ?T \<Longrightarrow>
       readTuple (reader ?cdb) (offset_t ?tbl + 16 * slot)
         = Inr (hash (?T ! unat slot), offset (?T ! unat slot))"
      by (rule rd)
    show "\<And>t'. t' < t \<Longrightarrow>
       hash (?T ! ((unat (drop_bit 8 ?h mod length_t ?tbl) + t') mod unat (length_t ?tbl))) \<noteq> 0
       \<and> (hash (?T ! ((unat (drop_bit 8 ?h mod length_t ?tbl) + t') mod unat (length_t ?tbl))) = ?h
            \<longrightarrow> getValueAt ?cdb
                  (offset (?T ! ((unat (drop_bit 8 ?h mod length_t ?tbl) + t') mod unat (length_t ?tbl))))
                  (Some k) = Inr None)"
      unfolding lt by (rule before)
  qed
  show ?thesis
    using pr n0 lt by (simp add: Get_def Let_def)
qed

section \<open>The database opened again\<close>

lemma reopened_layout:
  assumes "file_size kvs < 2 ^ 63"
  shows "reopened kvs
     = Some \<lparr>reader = layout kvs, hasher = cdb_hasher, header = index_of kvs\<rparr>"
  by (simp add: reopened_def written_layout [OF assms] New_layout)

lemma frozen_is_reopened:
  assumes "file_size kvs < 2 ^ 63"
  shows "frozen kvs = reopened kvs"
  by (simp add: frozen_layout [OF assms] reopened_layout [OF assms])

lemma lookup_layout:
  assumes "file_size kvs < 2 ^ 63"
  shows "lookup kvs key
     = Some (Get \<lparr>reader = layout kvs, hasher = cdb_hasher, header = index_of kvs\<rparr> key)"
  by (simp add: lookup_def reopened_layout [OF assms])

lemma maxAlloc_fits: "file_size kvs \<le> maxAlloc \<Longrightarrow> file_size kvs < 2 ^ 63"
  by (simp add: maxAlloc_def)

lemma lookup_first_put:
  assumes "file_size kvs \<le> maxAlloc" "kvs = ps1 @ (k, v) # ps2" "k \<notin> fst ` set ps1"
    "cdb_hasher (Some k) \<noteq> 0"
  shows "lookup kvs (Some k) = Some (Inr (Some v))"
  by (simp add: lookup_layout [OF maxAlloc_fits [OF assms(1)]]
      Get_layout [OF maxAlloc_fits [OF assms(1)] assms(2-4) assms(1)])

section \<open>A key whose hash is 0\<close>

lemma zero_key_hash: "cdb_hasher (Some zero_key) = 0"
  by (simp add: cdb_hasher_def Sum64_def Write_def Reset_def start_def elems_def zero_key_def)

lemma probe_zero_hash:
  assumes "length_t tbl \<noteq> 0"
    and "\<And>slot. unat slot < unat (length_t tbl) \<Longrightarrow>
       \<exists>a b. readTuple (reader cdb) (offset_t tbl + 16 * slot) = Inr (a, b)"
    and "h = 0" "unat slot < unat (length_t tbl)"
  shows "probe cdb key h tbl slot = Inr None"
  using assms
proof (induction cdb key h tbl slot rule: probe.induct)
  case (1 cdb key h tbl slot)
  from 1(3) [OF 1(5)] obtain a b where
    r: "readTuple (reader cdb) (offset_t tbl + 16 * slot) = Inr (a, b)" by blast
  show ?case
  proof (cases "a = 0")
    case True
    then show ?thesis by (subst probe.simps) (simp add: r)
  next
    case False
    have inner: "(if a = h then getValueAt cdb b key else Inr None) = Inr None"
      using False 1(4) by simp
    show ?thesis
    proof (cases "(slot + 1) mod length_t tbl = drop_bit 8 h mod length_t tbl")
      case True
      then show ?thesis
        using False 1(2,4) by (subst probe.simps) (simp add: r)
    next
      case ne: False
      have lt: "unat ((slot + 1) mod length_t tbl) < unat (length_t tbl)"
        using 1(2) by (rule unat_mod_less)
      have "probe cdb key h tbl ((slot + 1) mod length_t tbl) = Inr None"
        using 1(1) [OF r refl False inner refl 1(2) ne 1(2) 1(3) 1(4) lt] by simp
      then show ?thesis
        using False 1(2,4) ne by (subst probe.simps) (simp add: r)
    qed
  qed
qed

lemma lookup_zero_hash:
  assumes "file_size kvs < 2 ^ 63" "cdb_hasher key = 0"
  shows "lookup kvs key = Some (Inr None)"
proof -
  let ?cdb = "\<lparr>reader = layout kvs, hasher = cdb_hasher, header = index_of kvs\<rparr>"
  let ?tbl = "index_of kvs ! 0"
  have rd: "\<exists>a b. readTuple (reader ?cdb) (offset_t ?tbl + 16 * slot) = Inr (a, b)"
    if "unat slot < unat (length_t ?tbl)" for slot
  proof -
    have "length_t ?tbl = table_size (table_entries kvs 0)" by (simp add: index_of_nth)
    then have "unat slot < length (table_of (table_entries kvs 0))"
      using that length_table_of_entries(1,3) [OF assms(1), of 0] by simp
    from read_slot [OF assms(1) _ this] show ?thesis by simp
  qed
  have "Get ?cdb key = Inr None"
  proof (cases "length_t ?tbl = 0")
    case True
    then show ?thesis using assms(2) by (simp add: Get_def)
  next
    case False
    have "probe ?cdb key 0 ?tbl (drop_bit 8 0 mod length_t ?tbl) = Inr None"
      using False rd by (intro probe_zero_hash) (simp_all add: unat_gt_0)
    then show ?thesis using False assms(2) by (simp add: Get_def)
  qed
  then show ?thesis by (simp add: lookup_layout [OF assms(1)])
qed

section \<open>Round trip\<close>

lemma file_size_Nil [simp]: "file_size [] = 4096"
  by (simp add: file_size_def headerSize_def)

lemma file_size_Cons [simp]:
  "file_size (kv # kvs) = 48 + length (fst kv) + length (snd kv) + file_size kvs"
  by (simp add: file_size_def length_record_bytes)

lemma cdb_hasher_Some:
  "cdb_hasher (Some k) = Write_loop 5381 k"
  by (simp add: cdb_hasher_def Sum64_def Write_def Reset_def start_def elems_def)

text \<open>
  The round trip holds for every key whose hash is not 0: after puts with pairwise distinct
  keys (the file no larger than \<open>maxAlloc\<close>), \<open>Get\<close> on the finalized file with such a key
  returns the value inserted with it.
\<close>

theorem round_trip_nonzero_hash:
  assumes "file_size kvs \<le> maxAlloc" "distinct (map fst kvs)" "(k, v) \<in> set kvs"
    "cdb_hasher (Some k) \<noteq> 0"
  shows "lookup kvs (Some k) = Some (Inr (Some v))"
proof -
  have "map_of kvs k = Some v" using assms(2,3) by (rule map_of_is_SomeI)
  from map_of_first [OF this] obtain ps1 ps2 where
    "kvs = ps1 @ (k, v) # ps2" "k \<notin> fst ` set ps1" by blast
  then show ?thesis using assms(1,4) by (intro lookup_first_put [of kvs ps1 k v ps2])
qed

theorem round_trip_nonzero_hash_witness:
  "lookup [([102, 111, 111], [98, 97, 114]), ([98, 97, 122], [113, 117, 117, 117, 117, 120])]
     (Some [98, 97, 122]) = Some (Inr (Some [113, 117, 117, 117, 117, 120]))"
  by (rule round_trip_nonzero_hash) (simp_all add: cdb_hasher_Some maxAlloc_def)

text \<open>
  C1. The round trip fails at a key whose hash is 0: after the single put of \<open>zero_key\<close>
  with the value \<open>[7]\<close> and the finalize, \<open>Get\<close> with that key returns nil with no
  error, not the value.
\<close>

theorem round_trip_fails_at_zero_hash:
  "distinct (map fst [(zero_key, [7 :: byte])]) \<and> (zero_key, [7]) \<in> set [(zero_key, [7])]
    \<and> lookup [(zero_key, [7])] (Some zero_key) = Some (Inr None)"
proof -
  have "lookup [(zero_key, [7])] (Some zero_key) = Some (Inr None)"
    by (rule lookup_zero_hash) (simp_all add: zero_key_hash, simp add: zero_key_def)
  then show ?thesis by simp
qed

section \<open>A key whose hash is 0 is lost\<close>

lemma file_size_zero_key: "file_size [(zero_key, [98, 97, 114])] < 2 ^ 63"
  by (simp add: zero_key_def)

lemma table_entries_zero_key:
  "table_entries [(zero_key, [98, 97, 114])] 0 = [\<lparr>hash = 0, offset = 4096\<rparr>]"
  by (simp add: table_entries_def zero_key_hash headerSize_def)

lemma table_of_zero_key:
  "table_of [\<lparr>hash = 0, offset = 4096\<rparr>]
     = [\<lparr>hash = 0, offset = 4096\<rparr>, \<lparr>hash = 0, offset = 0\<rparr>]"
proof -
  have r: "replicate 2 \<lparr>hash = 0, offset = 0\<rparr>
      = [\<lparr>hash = 0 :: u64, offset = 0 :: u64\<rparr>, \<lparr>hash = 0, offset = 0\<rparr>]"
    by (simp add: numeral_2_eq_2)
  have f: "find_slot [\<lparr>hash = 0, offset = 0\<rparr>, \<lparr>hash = 0, offset = 0\<rparr>] 2 0 = Some (Inr 0)"
    by (subst find_slot.simps) simp
  show ?thesis
    by (simp add: table_of_def table_size_def r f)
qed

lemma zero_key_slot:
  "readTuple (layout [(zero_key, [98, 97, 114])])
     (offset_t (index_of [(zero_key, [98, 97, 114])] ! 0) + 16 * 0) = Inr (0, 4096)"
proof -
  have "unat (0 :: u64) < length (table_of (table_entries [(zero_key, [98, 97, 114])] 0))"
    by (simp add: table_entries_zero_key table_of_zero_key)
  from read_slot [OF file_size_zero_key _ this] show ?thesis
    by (simp add: table_entries_zero_key table_of_zero_key)
qed

text \<open>
  C2. The key \<open>zero_key\<close> has the default hash 0. After its put and the finalize, slot 0
  of table 0 holds the pair \<open>(0, 4096)\<close>: the entry is stored. \<open>Get\<close> on the file takes
  that slot for an empty one and returns nil with no error, not the value.
\<close>

theorem zero_hash_key_not_found:
  "cdb_hasher (Some zero_key) = 0
    \<and> reopened [(zero_key, [98, 97, 114])]
        = Some \<lparr>reader = layout [(zero_key, [98, 97, 114])], hasher = cdb_hasher,
                 header = index_of [(zero_key, [98, 97, 114])]\<rparr>
    \<and> readTuple (layout [(zero_key, [98, 97, 114])])
         (offset_t (index_of [(zero_key, [98, 97, 114])] ! 0) + 16 * 0) = Inr (0, 4096)
    \<and> lookup [(zero_key, [98, 97, 114])] (Some zero_key) = Some (Inr None)"
proof -
  have "lookup [(zero_key, [98, 97, 114])] (Some zero_key) = Some (Inr None)"
    by (rule lookup_zero_hash [OF file_size_zero_key zero_key_hash])
  then show ?thesis
    using zero_key_slot reopened_layout [OF file_size_zero_key] by (simp add: zero_key_hash)
qed

section \<open>The same key twice\<close>

text \<open>
  The first put of a key wins when the hash of the key is not 0: with the key put twice
  (other puts before, between and after, none of the earlier ones with this key, the file
  no larger than \<open>maxAlloc\<close>), \<open>Get\<close> on the finalized file returns the value of the first
  of the two puts.
\<close>

theorem first_put_wins:
  assumes "file_size (ps1 @ (k, v1) # ps2 @ (k, v2) # ps3) \<le> maxAlloc" "k \<notin> fst ` set ps1"
    "cdb_hasher (Some k) \<noteq> 0"
  shows "lookup (ps1 @ (k, v1) # ps2 @ (k, v2) # ps3) (Some k) = Some (Inr (Some v1))"
  using assms by (intro lookup_first_put [OF _ refl])

theorem first_put_wins_witness:
  "lookup ([] @ ([102, 111, 111], [98, 97, 114]) # [] @ ([102, 111, 111], [98, 97, 122]) # [])
     (Some [102, 111, 111]) = Some (Inr (Some [98, 97, 114]))"
  by (rule first_put_wins) (simp_all add: cdb_hasher_Some maxAlloc_def)

lemma file_size_zero_key_twice: "file_size [(zero_key, [1]), (zero_key, [2])] < 2 ^ 63"
  by (simp add: zero_key_def)

lemma table_entries_zero_key_twice:
  "table_entries [(zero_key, [1]), (zero_key, [2])] 0
     = [\<lparr>hash = 0, offset = 4096\<rparr>, \<lparr>hash = 0, offset = 4126\<rparr>]"
  by (simp add: table_entries_def zero_key_hash headerSize_def length_record_bytes)
     (simp add: zero_key_def)

lemma table_of_zero_key_twice:
  "table_of [\<lparr>hash = 0, offset = 4096\<rparr>, \<lparr>hash = 0, offset = 4126\<rparr>]
     = [\<lparr>hash = 0, offset = 4126\<rparr>, \<lparr>hash = 0, offset = 0\<rparr>,
        \<lparr>hash = 0, offset = 0\<rparr>, \<lparr>hash = 0, offset = 0\<rparr>]"
proof -
  have r: "replicate 4 \<lparr>hash = 0, offset = 0\<rparr>
      = [\<lparr>hash = 0 :: u64, offset = 0 :: u64\<rparr>, \<lparr>hash = 0, offset = 0\<rparr>,
         \<lparr>hash = 0, offset = 0\<rparr>, \<lparr>hash = 0, offset = 0\<rparr>]"
    by (simp add: numeral_eq_Suc)
  have f: "find_slot (\<lparr>hash = 0, offset = x\<rparr> # T) 4 0 = Some (Inr 0)" for x T
    by (subst find_slot.simps) simp
  show ?thesis
    by (simp add: table_of_def table_size_def r f)
qed

lemma zero_key_twice_slot:
  "readTuple (layout [(zero_key, [1]), (zero_key, [2])])
     (offset_t (index_of [(zero_key, [1]), (zero_key, [2])] ! 0) + 16 * 0) = Inr (0, 4126)"
proof -
  have "unat (0 :: u64) < length (table_of (table_entries [(zero_key, [1]), (zero_key, [2])] 0))"
    by (simp add: table_entries_zero_key_twice table_of_zero_key_twice)
  from read_slot [OF file_size_zero_key_twice _ this] show ?thesis
    by (simp add: table_entries_zero_key_twice table_of_zero_key_twice)
qed

text \<open>
  C3. With \<open>zero_key\<close>, whose hash is 0, put twice with the values \<open>[1]\<close> and \<open>[2]\<close>:
  in the finalized file slot 0 of table 0 holds the offset 4126 of the second record (the
  entry of the first put, offset 4096, has been overwritten), and \<open>Get\<close> with that key
  returns nil with no error, not the first value.
\<close>

theorem first_put_lost_at_zero_hash:
  "readTuple (layout [(zero_key, [1]), (zero_key, [2])])
     (offset_t (index_of [(zero_key, [1]), (zero_key, [2])] ! 0) + 16 * 0) = Inr (0, 4126)
    \<and> reopened [(zero_key, [1]), (zero_key, [2])]
        = Some \<lparr>reader = layout [(zero_key, [1]), (zero_key, [2])], hasher = cdb_hasher,
                 header = index_of [(zero_key, [1]), (zero_key, [2])]\<rparr>
    \<and> lookup [(zero_key, [1]), (zero_key, [2])] (Some zero_key) = Some (Inr None)"
proof -
  have "lookup [(zero_key, [1]), (zero_key, [2])] (Some zero_key) = Some (Inr None)"
    by (rule lookup_zero_hash [OF file_size_zero_key_twice zero_key_hash])
  then show ?thesis
    using zero_key_twice_slot reopened_layout [OF file_size_zero_key_twice] by simp
qed

section \<open>The load factor\<close>

lemma length_filter_all_entries:
  "length (filter (\<lambda>e. Q (hash e)) (all_entries H off kvs))
     = length (filter (\<lambda>kv. Q (H (Some (fst kv)))) kvs)"
  by (induction kvs arbitrary: off) simp_all

text \<open>
  C4. In the index of the finalized file (below \<open>2^63\<close> bytes), the length of table \<open>i\<close>
  is twice the number of puts whose key has a hash with low byte \<open>i\<close>.
\<close>

theorem table_length_twice_count:
  assumes "file_size kvs < 2 ^ 63" "i < 256"
  shows "\<exists>cdb. reopened kvs = Some cdb
    \<and> unat (length_t (header cdb ! i))
        = 2 * length (filter (\<lambda>kv. unat (cdb_hasher (Some (fst kv)) AND 255) = i) kvs)"
proof -
  have "length (table_entries kvs i)
      = length (filter (\<lambda>kv. unat (cdb_hasher (Some (fst kv)) AND 255) = i) kvs)"
    unfolding table_entries_def
    by (rule length_filter_all_entries [where Q = "\<lambda>h. unat (h AND 255) = i"])
  then show ?thesis
    using length_table_of_entries(3) [OF assms(1), of i]
    by (simp add: reopened_layout [OF assms(1)] index_of_nth [OF assms(2)])
qed

theorem table_length_twice_count_witness:
  "\<exists>cdb. reopened [([102, 111, 111], [98, 97, 114]), ([98, 97, 122], [])] = Some cdb
    \<and> unat (length_t (header cdb ! 163)) = 2"
  using table_length_twice_count [of "[([102, 111, 111], [98, 97, 114]), ([98, 97, 122], [])]" 163]
  by (simp add: cdb_hasher_Some)

section \<open>The empty database\<close>

text \<open>
  C5. A writer created and closed with no put leaves a file of exactly 4096 bytes; in its
  index every table has length 0, and \<open>Get\<close> on it returns nil without an error for
  every key.
\<close>

theorem empty_database:
  "\<exists>f cdb. written [] = Some f \<and> length f = 4096 \<and> New f None = Inr cdb
     \<and> map length_t (header cdb) = replicate 256 0
     \<and> (\<forall>key. Get cdb key = Inr None)"
proof -
  let ?cdb = "\<lparr>reader = layout [], hasher = cdb_hasher, header = index_of []\<rparr>"
  have s: "file_size [] < 2 ^ 63" by simp
  have w: "written [] = Some (layout [])" by (rule written_layout [OF s])
  have l: "length (layout []) = 4096" using length_layout [OF s] by simp
  have n: "New (layout []) None = Inr ?cdb" by (rule New_layout)
  have z: "length_t (index_of [] ! i) = 0" if "i < 256" for i
    using that by (simp add: index_of_nth table_entries_def table_size_def)
  have m: "map length_t (header ?cdb) = replicate 256 0"
    by (rule nth_equalityI) (simp_all add: z)
  have g: "Get ?cdb key = Inr None" for key
    using z [OF low_byte_less] by (simp add: Get_def)
  show ?thesis using w l n m g by blast
qed

section \<open>The offsets in the slots\<close>

lemma table_of_slot:
  assumes "file_size kvs < 2 ^ 63" "s < length (table_of (table_entries kvs i))"
  shows "table_of (table_entries kvs i) ! s = \<lparr>hash = 0, offset = 0\<rparr>
    \<or> table_of (table_entries kvs i) ! s \<in> set (table_entries kvs i)"
proof -
  let ?E = "table_entries kvs i"
  let ?n = "table_size ?E"
  let ?Z = "replicate (unat ?n) \<lparr>hash = 0, offset = 0\<rparr>"
  have un: "unat ?n = 2 * length ?E" by (rule length_table_of_entries(3) [OF assms(1)])
  have lT: "length (table_of ?E) = 2 * length ?E" by (rule length_table_of_entries(1) [OF assms(1)])
  have l0: "length ?Z = unat ?n" by simp
  have c0: "card (taken ?Z) + length ?E \<le> unat ?n" using un by simp
  from fill_inv [OF l0 c0] obtain T' where
    T': "fill ?E ?n ?Z = Some (Inr T')" "\<forall>j<unat ?n. T' ! j = ?Z ! j \<or> T' ! j \<in> set ?E"
    by blast
  have "T' = table_of ?E"
    using T'(1) length_table_of_entries(2) [OF assms(1), of i] by simp
  moreover have "s < unat ?n" using assms(2) lT un by simp
  ultimately show ?thesis using T'(2) by auto
qed

lemma entry_offset_ge:
  assumes "file_size kvs < 2 ^ 63" "e \<in> set (all_entries H (of_nat headerSize) kvs)"
  shows "headerSize \<le> unat (offset e)"
proof -
  from entry_origin [OF assms(2)] obtain ps1 kv ps2 where
    p: "kvs = ps1 @ kv # ps2"
       "e = \<lparr>hash = H (Some (fst kv)),
              offset = of_nat headerSize + of_nat (length (concat (map record_bytes ps1)))\<rparr>"
    by blast
  let ?P = "headerSize + length (concat (map record_bytes ps1))"
  have "?P < 2 ^ 64" using assms(1) by (simp add: file_size_def p(1))
  then have "unat (of_nat ?P :: u64) = ?P" by (rule unat_of_nat_small)
  moreover have "offset e = of_nat ?P" by (simp add: p(2))
  ultimately show ?thesis by simp
qed

text \<open>
  C7, amended. In the finalized file (below \<open>2^63\<close> bytes), every slot of every table is the
  empty pair \<open>(0, 0)\<close> or holds a record offset of at least \<open>headerSize\<close>.
\<close>

theorem slot_offset_at_least_headerSize:
  assumes "file_size kvs < 2 ^ 63" "reopened kvs = Some cdb" "i < 256"
    "unat slot < unat (length_t (header cdb ! i))"
    "readTuple (reader cdb) (offset_t (header cdb ! i) + 16 * slot) = Inr (h, off)"
  shows "(h = 0 \<and> off = 0) \<or> headerSize \<le> unat off"
proof -
  let ?T = "table_of (table_entries kvs i)"
  have cdb: "cdb = \<lparr>reader = layout kvs, hasher = cdb_hasher, header = index_of kvs\<rparr>"
    using assms(2) by (simp add: reopened_layout [OF assms(1)])
  have "length_t (header cdb ! i) = table_size (table_entries kvs i)"
    by (simp add: cdb index_of_nth [OF assms(3)])
  then have lt: "unat slot < length ?T"
    using assms(4) length_table_of_entries(1,3) [OF assms(1), of i] by simp
  have "readTuple (reader cdb) (offset_t (header cdb ! i) + 16 * slot)
      = Inr (hash (?T ! unat slot), offset (?T ! unat slot))"
    using read_slot [OF assms(1,3) lt] by (simp add: cdb)
  then have hs: "h = hash (?T ! unat slot)" "off = offset (?T ! unat slot)"
    using assms(5) by simp_all
  from table_of_slot [OF assms(1) lt] show ?thesis
  proof
    assume "?T ! unat slot = \<lparr>hash = 0, offset = 0\<rparr>"
    then show ?thesis using hs by simp
  next
    assume "?T ! unat slot \<in> set (table_entries kvs i)"
    then have "?T ! unat slot \<in> set (all_entries cdb_hasher (of_nat headerSize) kvs)"
      by (simp add: table_entries_def)
    from entry_offset_ge [OF assms(1) this] show ?thesis using hs by simp
  qed
qed

text \<open>The table of the single put of the empty key with the empty value.\<close>

lemma table_entries_empty_key:
  "table_entries [([], [])] 5 = [\<lparr>hash = 5381, offset = 4096\<rparr>]"
  by (simp add: table_entries_def cdb_hasher_Some headerSize_def)

lemma table_of_empty_key:
  "table_of [\<lparr>hash = 5381, offset = 4096\<rparr>]
     = [\<lparr>hash = 0, offset = 0\<rparr>, \<lparr>hash = 5381, offset = 4096\<rparr>]"
proof -
  have r: "replicate 2 \<lparr>hash = 0, offset = 0\<rparr>
      = [\<lparr>hash = 0 :: u64, offset = 0 :: u64\<rparr>, \<lparr>hash = 0, offset = 0\<rparr>]"
    by (simp add: numeral_2_eq_2)
  have d: "drop_bit 8 (5381 :: u64) mod 2 = 1" by simp
  have f: "find_slot [\<lparr>hash = 0, offset = 0\<rparr>, \<lparr>hash = 0, offset = 0\<rparr>] 2 1 = Some (Inr 1)"
    by (subst find_slot.simps) simp
  show ?thesis
    by (simp add: table_of_def table_size_def r d f)
qed

lemma first_slot_read:
  "readTuple (layout [([], [])]) (offset_t (index_of [([], [])] ! 5) + 16 * 1) = Inr (5381, 4096)"
proof -
  have s: "file_size [([], [])] < 2 ^ 63" by simp
  have "unat (1 :: u64) < length (table_of (table_entries [([], [])] 5))"
    by (simp add: table_entries_empty_key table_of_empty_key)
  from read_slot [OF s _ this] show ?thesis
    by (simp add: table_entries_empty_key table_of_empty_key)
qed

theorem slot_offset_at_least_headerSize_witness:
  "reopened [([], [])]
      = Some \<lparr>reader = layout [([], [])], hasher = cdb_hasher, header = index_of [([], [])]\<rparr>
    \<and> headerSize \<le> unat (4096 :: u64)"
proof -
  let ?cdb = "\<lparr>reader = layout [([], [])], hasher = cdb_hasher, header = index_of [([], [])]\<rparr>"
  have s: "file_size [([], [])] < 2 ^ 63" by simp
  have r: "reopened [([], [])] = Some ?cdb" by (rule reopened_layout [OF s])
  have l: "unat (1 :: u64) < unat (length_t (header ?cdb ! 5))"
    by (simp add: index_of_nth table_entries_empty_key table_size_def)
  have t: "readTuple (reader ?cdb) (offset_t (header ?cdb ! 5) + 16 * 1) = Inr (5381, 4096)"
    using first_slot_read by simp
  from slot_offset_at_least_headerSize [OF s r _ l t] have "headerSize \<le> unat (4096 :: u64)"
    by simp
  then show ?thesis using r by simp
qed

theorem slot_offset_counterexample:
  "reopened [([], [])]
      = Some \<lparr>reader = layout [([], [])], hasher = cdb_hasher, header = index_of [([], [])]\<rparr>
    \<and> readTuple (layout [([], [])]) (offset_t (index_of [([], [])] ! 5) + 16 * 1)
        = Inr (5381, 4096)
    \<and> \<not> headerSize < unat (4096 :: u64)"
proof -
  have s: "file_size [([], [])] < 2 ^ 63" by simp
  show ?thesis
    using reopened_layout [OF s] first_slot_read by (simp add: headerSize_def)
qed

section \<open>Finalize runs once\<close>

lemma Close_after_the_once:
  "finalizeOnce w \<Longrightarrow> Close w = Some (close_file w)"
  by (cases "Close_sink (writer w)") (simp add: Close_def finalize_once_def close_file_def)

lemma Freeze_after_the_once:
  "finalizeOnce w \<Longrightarrow>
     Freeze w = Some (reader_of w (replicate 256 \<lparr>offset_t = 0, length_t = 0\<rparr>), w)"
  by (simp add: Freeze_def finalize_once_def reader_of_def)

lemma Freeze_at_first:
  assumes "\<not> finalizeOnce w" "finalize w = Some (r, w')"
  shows "Freeze w =
     Some (case r of Inl err \<Rightarrow> Inl err
                   | Inr index \<Rightarrow> reader_of (w'\<lparr>finalizeOnce := True\<rparr>) index,
           w'\<lparr>finalizeOnce := True\<rparr>)"
  using assms by (cases r) (simp_all add: Freeze_def finalize_once_def reader_of_def)

lemma Close_at_first:
  assumes "\<not> finalizeOnce w" "finalize w = Some (r, w')"
  shows "Close w =
     Some (case r of Inl err \<Rightarrow> (Some err, w'\<lparr>finalizeOnce := True\<rparr>)
                   | Inr index \<Rightarrow> close_file (w'\<lparr>finalizeOnce := True\<rparr>))"
  using assms
  by (cases r; cases "Close_sink (writer w')")
     (simp_all add: Close_def finalize_once_def close_file_def)

lemma close_file_keeps:
  "content (writer (snd (close_file w))) = content (writer w)"
  "bufferedWriter (snd (close_file w)) = bufferedWriter w"
  "bufferedOffset (snd (close_file w)) = bufferedOffset w"
  "finalizeOnce (snd (close_file w)) = finalizeOnce w"
  "fst (close_file w) \<noteq> Some Panic"
  by (simp_all add: close_file_def Close_sink_def)

text \<open>
  A second run of \<open>finalize\<close> would not go unseen: with \<open>bufferedWriter\<close> nil it panics, at
  the first slot it writes or at \<open>Flush\<close>.
\<close>

lemma finalize_table_nil:
  assumes "bufferedWriter w = None" "length (entries w ! i) < 2 ^ 63"
  shows "finalize_table i (index, w) = Some (Inl Panic)
    \<or> (\<exists>index1. finalize_table i (index, w) = Some (Inr (index1, w)))"
proof (cases "entries w ! i = []")
  case True
  then show ?thesis by (simp add: finalize_table_def)
next
  case False
  have f: "fill (entries w ! i) (push_bit 1 (of_nat (length (entries w ! i))))
       (replicate (unat (push_bit 1 (of_nat (length (entries w ! i))) :: u64))
          \<lparr>hash = 0, offset = 0\<rparr>)
     = Some (Inr (table_of (entries w ! i)))"
    using fill_total(1) [OF assms(2)] by (simp add: table_size_def)
  have "length (table_of (entries w ! i)) \<noteq> 0"
    using fill_total(2) [OF assms(2)] False by simp
  then obtain x xs where "table_of (entries w ! i) = x # xs"
    by (cases "table_of (entries w ! i)") simp_all
  then have "write_slots (table_of (entries w ! i)) w = Inl Panic"
    using assms(1) by simp
  then have "finalize_table i (index, w) = Some (Inl Panic)"
    unfolding finalize_table_def using f by (simp add: Let_def)
  then show ?thesis by simp
qed

lemma finalize_tables_nil:
  assumes "bufferedWriter w = None" "\<forall>i\<in>set ns. length (entries w ! i) < 2 ^ 63"
  shows "finalize_tables ns (index, w) = Some (Inl Panic)
    \<or> (\<exists>index1. finalize_tables ns (index, w) = Some (Inr (index1, w)))"
  using assms(2)
proof (induction ns arbitrary: index)
  case Nil
  then show ?case by simp
next
  case (Cons i ns)
  have li: "length (entries w ! i) < 2 ^ 63" using Cons.prems by simp
  have rest: "\<forall>i\<in>set ns. length (entries w ! i) < 2 ^ 63" using Cons.prems by simp
  from finalize_table_nil [OF assms(1) li, of index] show ?case
  proof
    assume "finalize_table i (index, w) = Some (Inl Panic)"
    then show ?thesis by simp
  next
    assume "\<exists>index1. finalize_table i (index, w) = Some (Inr (index1, w))"
    then obtain index1 where "finalize_table i (index, w) = Some (Inr (index1, w))" by blast
    then show ?thesis using Cons.IH [OF rest, of index1] by auto
  qed
qed

lemma finalize_again_panics:
  assumes "bufferedWriter w = None" "\<forall>i<256. length (entries w ! i) < 2 ^ 63"
  shows "finalize w = Some (Inl Panic, w)"
proof -
  have small: "\<forall>i\<in>set [0..<256]. length (entries w ! i) < 2 ^ 63" using assms(2) by simp
  from finalize_tables_nil [OF assms(1) small, of "replicate 256 \<lparr>offset_t = 0, length_t = 0\<rparr>"]
  show ?thesis
    unfolding finalize_def using assms(1) by auto
qed

text \<open>
  C8. On a writer whose once has not run and whose \<open>finalize\<close> returns \<open>r\<close> and leaves the
  writer \<open>w'\<close>. \<open>Freeze\<close> returns what that one run gives and sets the once. \<open>Close\<close> after
  it does nothing but close the file: it returns what closing returns, never a panic, and
  leaves the writer as the one run of \<open>finalize\<close> left it, the file's content included.
  \<open>Close\<close> first returns the error of that one run, or closes the file; \<open>Freeze\<close> after it
  leaves the writer as it is and returns a reader with the zero index (or \<open>ErrInvalid\<close>),
  never what \<open>finalize\<close> returns.
\<close>

theorem finalize_runs_once:
  assumes "\<not> finalizeOnce w" "finalize w = Some (r, w')"
  shows "Freeze w =
       Some (case r of Inl err \<Rightarrow> Inl err
                     | Inr index \<Rightarrow> reader_of (w'\<lparr>finalizeOnce := True\<rparr>) index,
             w'\<lparr>finalizeOnce := True\<rparr>)
    \<and> Close (w'\<lparr>finalizeOnce := True\<rparr>) = Some (close_file (w'\<lparr>finalizeOnce := True\<rparr>))
    \<and> fst (close_file (w'\<lparr>finalizeOnce := True\<rparr>)) \<noteq> Some Panic
    \<and> content (writer (snd (close_file (w'\<lparr>finalizeOnce := True\<rparr>)))) = content (writer w')
    \<and> bufferedWriter (snd (close_file (w'\<lparr>finalizeOnce := True\<rparr>))) = bufferedWriter w'
    \<and> bufferedOffset (snd (close_file (w'\<lparr>finalizeOnce := True\<rparr>))) = bufferedOffset w'
    \<and> Close w =
       Some (case r of Inl err \<Rightarrow> (Some err, w'\<lparr>finalizeOnce := True\<rparr>)
                     | Inr index \<Rightarrow> close_file (w'\<lparr>finalizeOnce := True\<rparr>))
    \<and> Freeze (w'\<lparr>finalizeOnce := True\<rparr>) =
       Some (reader_of (w'\<lparr>finalizeOnce := True\<rparr>)
               (replicate 256 \<lparr>offset_t = 0, length_t = 0\<rparr>),
             w'\<lparr>finalizeOnce := True\<rparr>)
    \<and> Freeze (snd (close_file (w'\<lparr>finalizeOnce := True\<rparr>))) =
       Some (reader_of (snd (close_file (w'\<lparr>finalizeOnce := True\<rparr>)))
               (replicate 256 \<lparr>offset_t = 0, length_t = 0\<rparr>),
             snd (close_file (w'\<lparr>finalizeOnce := True\<rparr>)))"
proof -
  let ?w1 = "w'\<lparr>finalizeOnce := True\<rparr>"
  have o1: "finalizeOnce ?w1" by simp
  have o2: "finalizeOnce (snd (close_file ?w1))" by (simp add: close_file_keeps(4))
  show ?thesis
    using Freeze_at_first [OF assms] Close_at_first [OF assms]
      Close_after_the_once [OF o1] Freeze_after_the_once [OF o1] Freeze_after_the_once [OF o2]
      close_file_keeps [of ?w1]
    by simp
qed

theorem finalize_runs_once_witness:
  "\<exists>w0 w w'. Create = Inr w0 \<and> puts w0 [([102, 111, 111], [98, 97, 114])] = Inr w
     \<and> \<not> finalizeOnce w
     \<and> finalize w = Some (Inr (index_of [([102, 111, 111], [98, 97, 114])]), w')
     \<and> content (writer w') = layout [([102, 111, 111], [98, 97, 114])]
     \<and> Freeze w =
         Some (Inr \<lparr>reader = layout [([102, 111, 111], [98, 97, 114])], hasher = cdb_hasher,
                     header = index_of [([102, 111, 111], [98, 97, 114])]\<rparr>,
               w'\<lparr>finalizeOnce := True\<rparr>)
     \<and> Close (w'\<lparr>finalizeOnce := True\<rparr>) =
         Some (None, w'\<lparr>finalizeOnce := True, writer := (writer w')\<lparr>closed := True\<rparr>\<rparr>)
     \<and> finalize (w'\<lparr>finalizeOnce := True\<rparr>) = Some (Inl Panic, w'\<lparr>finalizeOnce := True\<rparr>)
     \<and> Close w =
         Some (None, w'\<lparr>finalizeOnce := True, writer := (writer w')\<lparr>closed := True\<rparr>\<rparr>)
     \<and> Freeze (w'\<lparr>finalizeOnce := True, writer := (writer w')\<lparr>closed := True\<rparr>\<rparr>) =
         Some (Inr \<lparr>reader = layout [([102, 111, 111], [98, 97, 114])], hasher = cdb_hasher,
                     header = replicate 256 \<lparr>offset_t = 0, length_t = 0\<rparr>\<rparr>,
               w'\<lparr>finalizeOnce := True, writer := (writer w')\<lparr>closed := True\<rparr>\<rparr>)"
proof -
  let ?kvs = "[([102, 111, 111], [98, 97, 114])] :: (byte list \<times> byte list) list"
  have s: "file_size ?kvs < 2 ^ 63" by simp
  from finalize_after_puts [OF s] obtain w0 w w' where
    w: "Create = Inr w0" "puts w0 ?kvs = Inr w" "\<not> finalizeOnce w"
      "finalize w = Some (Inr (index_of ?kvs), w')" "content (writer w') = layout ?kvs"
      "\<not> closed (writer w')" "closer (writer w')" "readerAt (writer w')"
      "hasher_w w' = cdb_hasher" "bufferedWriter w' = None"
      "\<forall>i<256. length (entries w' ! i) < 2 ^ 63"
    by blast
  have again: "finalize (w'\<lparr>finalizeOnce := True\<rparr>) = Some (Inl Panic, w'\<lparr>finalizeOnce := True\<rparr>)"
    by (rule finalize_again_panics) (use w(10,11) in simp_all)
  have cf: "close_file (w'\<lparr>finalizeOnce := True\<rparr>)
      = (None, w'\<lparr>finalizeOnce := True, writer := (writer w')\<lparr>closed := True\<rparr>\<rparr>)"
    using w(6,7) by (simp add: close_file_def Close_sink_def)
  from finalize_runs_once [OF w(3,4)] have
    "Freeze w =
         Some (Inr \<lparr>reader = layout ?kvs, hasher = cdb_hasher, header = index_of ?kvs\<rparr>,
               w'\<lparr>finalizeOnce := True\<rparr>)
     \<and> Close (w'\<lparr>finalizeOnce := True\<rparr>) =
         Some (None, w'\<lparr>finalizeOnce := True, writer := (writer w')\<lparr>closed := True\<rparr>\<rparr>)
     \<and> Close w =
         Some (None, w'\<lparr>finalizeOnce := True, writer := (writer w')\<lparr>closed := True\<rparr>\<rparr>)
     \<and> Freeze (w'\<lparr>finalizeOnce := True, writer := (writer w')\<lparr>closed := True\<rparr>\<rparr>) =
         Some (Inr \<lparr>reader = layout ?kvs, hasher = cdb_hasher,
                     header = replicate 256 \<lparr>offset_t = 0, length_t = 0\<rparr>\<rparr>,
               w'\<lparr>finalizeOnce := True, writer := (writer w')\<lparr>closed := True\<rparr>\<rparr>)"
    using w(5,8,9) by (simp add: cf reader_of_def)
  then show ?thesis using w(1-5) again by blast
qed

section \<open>Calls of Get on one reader\<close>

lemma Get_is_Get_from: "Get cdb key = Get_from cdb key (hasher cdb key)"
  by (simp add: Get_def Get_from_def Let_def)

text \<open>One call of \<open>Get\<close> alone on the hasher computes the hash of its key.\<close>

lemma run_calls_alone:
  "run_calls (Get_calls t key) h digests t = Some (cdb_hasher key)"
  by (simp add: Get_calls_def cdb_hasher_def Reset_def Write_def Sum64_def newCDBHash_def)

text \<open>
  Calls of \<open>Get\<close> that follow one another return what \<open>Get\<close> returns: the second call
  resets the hasher the first one left.
\<close>

lemma Get_scheduled_in_turn:
  assumes "hasher cdb = cdb_hasher" "t \<noteq> u"
  shows "Get_scheduled cdb (Get_calls t k1 @ Get_calls u k2) t k1 = Some (Get cdb k1)"
    and "Get_scheduled cdb (Get_calls t k1 @ Get_calls u k2) u k2 = Some (Get cdb k2)"
  using assms
  by (simp_all add: Get_scheduled_def Get_calls_def Get_is_Get_from cdb_hasher_def Reset_def
      Write_def Sum64_def newCDBHash_def)

lemma foo_baz_digest:
  "run_calls [(0, CallReset), (1, CallReset), (0, CallWrite (Some [102, 111, 111])),
              (1, CallWrite (Some [98, 97, 122])), (0, CallSum64), (1, CallSum64)]
     newCDBHash (\<lambda>t. None) 0 = Some 6950610457754"
  by (simp add: Reset_def Write_def Sum64_def newCDBHash_def start_def elems_def)

lemma foo_baz_schedule:
  "[(0, CallReset), (1, CallReset), (0, CallWrite (Some [102, 111, 111])),
    (1, CallWrite (Some [98, 97, 122])), (0, CallSum64), (1, CallSum64)]
     \<in> shuffles (Get_calls 0 (Some [102, 111, 111])) (Get_calls 1 (Some [98, 97, 122]))"
  by (simp add: Get_calls_def Cons_in_shuffles_iff)

lemma file_size_foo_baz:
  "file_size [([102, 111, 111], [98, 97, 114]), ([98, 97, 122], [113, 117, 117, 117, 117, 120])]
     < 2 ^ 63"
  by simp

text \<open>
  C9. Two goroutines call \<open>Get\<close> on the reader of the file with the records
  \<open>(foo, bar)\<close> and \<open>(baz, quuuux)\<close>, the first with \<open>foo\<close>, the second with \<open>baz\<close>.
  Alone, \<open>Get(foo)\<close> returns \<open>bar\<close>. When the calls reach the shared hasher in the order
  Reset, Reset, Write(foo), Write(baz), Sum64, Sum64 (an interleaving of the two calls),
  the first goroutine reads the digest of \<open>foobaz\<close>, whose low byte 154 selects an empty
  table, and its \<open>Get(foo)\<close> returns nil with no error.
\<close>

theorem Get_at_the_same_time_loses_key:
  "reopened [([102, 111, 111], [98, 97, 114]), ([98, 97, 122], [113, 117, 117, 117, 117, 120])]
      = Some \<lparr>reader = layout [([102, 111, 111], [98, 97, 114]),
                               ([98, 97, 122], [113, 117, 117, 117, 117, 120])],
               hasher = cdb_hasher,
               header = index_of [([102, 111, 111], [98, 97, 114]),
                                  ([98, 97, 122], [113, 117, 117, 117, 117, 120])]\<rparr>
    \<and> [(0, CallReset), (1, CallReset), (0, CallWrite (Some [102, 111, 111])),
        (1, CallWrite (Some [98, 97, 122])), (0, CallSum64), (1, CallSum64)]
         \<in> shuffles (Get_calls 0 (Some [102, 111, 111])) (Get_calls 1 (Some [98, 97, 122]))
    \<and> Get \<lparr>reader = layout [([102, 111, 111], [98, 97, 114]),
                             ([98, 97, 122], [113, 117, 117, 117, 117, 120])],
             hasher = cdb_hasher,
             header = index_of [([102, 111, 111], [98, 97, 114]),
                                ([98, 97, 122], [113, 117, 117, 117, 117, 120])]\<rparr>
          (Some [102, 111, 111]) = Inr (Some [98, 97, 114])
    \<and> Get_scheduled \<lparr>reader = layout [([102, 111, 111], [98, 97, 114]),
                             ([98, 97, 122], [113, 117, 117, 117, 117, 120])],
             hasher = cdb_hasher,
             header = index_of [([102, 111, 111], [98, 97, 114]),
                                ([98, 97, 122], [113, 117, 117, 117, 117, 120])]\<rparr>
          [(0, CallReset), (1, CallReset), (0, CallWrite (Some [102, 111, 111])),
           (1, CallWrite (Some [98, 97, 122])), (0, CallSum64), (1, CallSum64)]
          0 (Some [102, 111, 111]) = Some (Inr None)"
proof -
  let ?kvs = "[([102, 111, 111], [98, 97, 114]), ([98, 97, 122], [113, 117, 117, 117, 117, 120])]
     :: (byte list \<times> byte list) list"
  let ?cdb = "\<lparr>reader = layout ?kvs, hasher = cdb_hasher, header = index_of ?kvs\<rparr>"
  have r: "reopened ?kvs = Some ?cdb" by (rule reopened_layout [OF file_size_foo_baz])
  have "lookup ?kvs (Some [102, 111, 111]) = Some (Inr (Some [98, 97, 114]))"
    by (rule lookup_first_put [of _ "[]" _ _ "[([98, 97, 122], [113, 117, 117, 117, 117, 120])]"])
       (simp_all add: cdb_hasher_Some maxAlloc_def)
  then have g: "Get ?cdb (Some [102, 111, 111]) = Inr (Some [98, 97, 114])"
    by (simp add: lookup_layout [OF file_size_foo_baz])
  have e: "table_entries ?kvs 154 = []"
    by (simp add: table_entries_def cdb_hasher_Some)
  have "length_t (index_of ?kvs ! 154) = 0"
    by (simp add: index_of_nth e table_size_def)
  then have "Get_from ?cdb (Some [102, 111, 111]) 6950610457754 = Inr None"
    by (simp add: Get_from_def)
  then have s: "Get_scheduled ?cdb
          [(0, CallReset), (1, CallReset), (0, CallWrite (Some [102, 111, 111])),
           (1, CallWrite (Some [98, 97, 122])), (0, CallSum64), (1, CallSum64)]
          0 (Some [102, 111, 111]) = Some (Inr None)"
    unfolding Get_scheduled_def foo_baz_digest by simp
  show ?thesis using r foo_baz_schedule g s by simp
qed

end
